theory Spec2Isabelle
  imports Main "HOL-Library.AList" "HOL-Library.Sublist" "HOL-Library.Char_ord"
    "HOL-Library.List_Lexorder" "HOL-Library.Multiset"
begin

section \<open>Data\<close>

text \<open>
  The exceptions that scripts/garmin_token_store.py raises or lets through. Python's
  \<^verbatim>\<open>str\<close> and \<^verbatim>\<open>bytes\<close> are both modelled as \<^typ>\<open>string\<close>
  (a list of 8-bit characters; text is its UTF-8 encoding).
\<close>

datatype error = ValueError string | RuntimeError string | BadZipFile | OSError | OtherError string

text \<open>A parsed JSON value; an object is a Python dict, looked up with \<^const>\<open>map_of\<close>.\<close>

datatype json = JNull | JBool bool | JNumber string | JString string
  | JArray "json list" | JObject "(string \<times> json) list"

text \<open>
  A member of an opened zip archive: its file name and what reading its data does.
  \<open>Data d\<close>: the data is \<open>d\<close>. \<open>OpenFails e\<close>: \<^verbatim>\<open>archive.open(member)\<close>
  raises \<open>e\<close> (bad local header, encrypted member). \<open>ReadFails d e\<close>: after the
  bytes \<open>d\<close> have been read, reading raises \<open>e\<close> (bad CRC, broken stream).
\<close>

datatype zcontent = Data string | OpenFails error | ReadFails string error

datatype zmember = ZMember (zname: string) (zcontent: zcontent)

text \<open>
  What \<^verbatim>\<open>ZipFile.write\<close> records for a file (a \<^verbatim>\<open>ZipInfo\<close>): the member's
  name, the \<^verbatim>\<open>date_time\<close> tuple of the file's modification time (year, month, day,
  hours, minutes, seconds, in local time), the attributes taken from the file's mode, and
  the data.
\<close>

type_synonym date_time = "nat \<times> nat \<times> nat \<times> nat \<times> nat \<times> nat"

datatype zipinfo = ZipInfo (zi_name: string) (zi_time: date_time) (zi_attr: nat) (zi_data: string)

text \<open>
  The file system: a tree of directories and regular files. A directory lists named
  entries in the order in which the operating system enumerates them; a regular file has
  its content and whether the process may read it. There are no symbolic links, and the
  process may list, search and change every directory.
\<close>

datatype node = File bool string | Dir "(string \<times> node) list"

datatype kind = KFile bool string | KDir

text \<open>
  What the program takes from its surroundings: the working directory (an absolute path,
  held here without its leading slash) and the functions of the standard library that it
  calls on byte strings. \<open>json_loads\<close> is \<^verbatim>\<open>json.loads(b.decode("utf-8"))\<close>, with
  \<open>None\<close> for any exception; \<open>zip_open\<close> is the constructor \<^verbatim>\<open>zipfile.ZipFile\<close>
  on a byte buffer (it reads the central directory only);
  \<open>zip_local\<close> and \<open>zip_central\<close> give the bytes that writing a member adds to the
  archive (local record with the compressed data, central directory record at an offset);
  \<open>b64decode\<close> is \<^verbatim>\<open>base64.b64decode(s, validate=True)\<close>, with the message of
  the exception on the left.

  The tree of the file system holds names and contents only. What \<^verbatim>\<open>os.stat\<close>
  reports besides is given by the surroundings, for the file at a place (the list of the
  names from the root): \<open>file_time\<close> is
  \<^verbatim>\<open>time.localtime(st.st_mtime)[0:6]\<close> and \<open>file_mode\<close> is \<^verbatim>\<open>st.st_mode\<close>.
  The encoder is the only function that reads them, and it writes no file.
\<close>

record env =
  cwd :: string
  json_loads :: "string \<Rightarrow> json option"
  json_dumps :: "json \<Rightarrow> string"
  zip_open :: "string \<Rightarrow> error + zmember list"
  zip_local :: "zipinfo \<Rightarrow> string"
  zip_central :: "nat \<Rightarrow> zipinfo \<Rightarrow> string"
  b64encode :: "string \<Rightarrow> string"
  b64decode :: "string \<Rightarrow> string + string"
  file_time :: "string list \<Rightarrow> date_time"
  file_mode :: "string list \<Rightarrow> nat"

section \<open>posixpath\<close>

text \<open>\<^verbatim>\<open>s.split("/")\<close> and \<^verbatim>\<open>"/".join(xs)\<close>.\<close>

fun split_sep :: "string \<Rightarrow> string list" where
  "split_sep [] = [[]]"
| "split_sep (c # cs) =
     (if c = CHR ''/'' then [] # split_sep cs
      else (case split_sep cs of [] \<Rightarrow> [[c]] | w # ws \<Rightarrow> (c # w) # ws))"

fun sep_join :: "string list \<Rightarrow> string" where
  "sep_join [] = []"
| "sep_join [x] = x"
| "sep_join (x # y # ys) = x @ CHR ''/'' # sep_join (y # ys)"

text \<open>\<^verbatim>\<open>os.path.join(a, b)\<close> and \<^verbatim>\<open>os.path.join(*xs)\<close>.\<close>

definition path_join :: "string \<Rightarrow> string \<Rightarrow> string" where
  "path_join a b =
     (if prefix ''/'' b then b
      else if a = [] \<or> suffix ''/'' a then a @ b
      else a @ ''/'' @ b)"

definition path_join_list :: "string list \<Rightarrow> string" where
  "path_join_list xs = foldl path_join (hd xs) (tl xs)"

text \<open>\<^verbatim>\<open>os.path.normpath\<close>: the loop over the components is \<open>norm_step\<close>.\<close>

definition initial_slashes :: "string \<Rightarrow> nat" where
  "initial_slashes path =
     (if \<not> prefix ''/'' path then 0
      else if prefix ''//'' path \<and> \<not> prefix ''///'' path then 2
      else 1)"

definition norm_step :: "bool \<Rightarrow> string list \<Rightarrow> string \<Rightarrow> string list" where
  "norm_step rooted new_comps name =
     (if name = [] \<or> name = ''.'' then new_comps
      else if name \<noteq> ''..'' \<or> (\<not> rooted \<and> new_comps = [])
              \<or> (new_comps \<noteq> [] \<and> last new_comps = ''..'')
        then new_comps @ [name]
      else if new_comps \<noteq> [] then butlast new_comps
      else new_comps)"

definition normpath :: "string \<Rightarrow> string" where
  "normpath path =
     (if path = [] then ''.''
      else let k = initial_slashes path;
               comps = foldl (norm_step (0 < k)) [] (split_sep path);
               p = replicate k CHR ''/'' @ sep_join comps
           in if p = [] then ''.'' else p)"

definition getcwd :: "env \<Rightarrow> string" where
  "getcwd E = CHR ''/'' # cwd E"

definition abspath :: "env \<Rightarrow> string \<Rightarrow> string" where
  "abspath E path =
     normpath (if prefix ''/'' path then path else path_join (getcwd E) path)"

text \<open>\<^verbatim>\<open>os.path.dirname\<close>.\<close>

definition dirname :: "string \<Rightarrow> string" where
  "dirname p =
     (let head = rev (dropWhile (\<lambda>c. c \<noteq> CHR ''/'') (rev p))
      in if head \<noteq> [] \<and> head \<noteq> replicate (length head) CHR ''/''
         then rev (dropWhile (\<lambda>c. c = CHR ''/'') (rev head))
         else head)"

text \<open>\<^verbatim>\<open>os.path.relpath(path, start)\<close>; it raises ValueError on an empty path.\<close>

definition path_comps :: "string \<Rightarrow> string list" where
  "path_comps s = filter (\<lambda>x. x \<noteq> []) (split_sep s)"

fun commonprefix :: "'a list \<Rightarrow> 'a list \<Rightarrow> 'a list" where
  "commonprefix (x # xs) (y # ys) = (if x = y then x # commonprefix xs ys else [])"
| "commonprefix _ _ = []"

definition relpath :: "env \<Rightarrow> string \<Rightarrow> string \<Rightarrow> error + string" where
  "relpath E path start =
     (if path = [] then Inl (ValueError ''no path specified'')
      else let start_list = path_comps (abspath E start);
               path_list = path_comps (abspath E path);
               i = length (commonprefix start_list path_list);
               rel_list = replicate (length start_list - i) ''..'' @ drop i path_list
           in if rel_list = [] then Inr ''.'' else Inr (path_join_list rel_list))"

section \<open>The file system\<close>

text \<open>
  A path string names the node found by following the components of its absolute normal
  form from the root (names are resolved as \<^verbatim>\<open>os.path.abspath\<close> resolves them);
  the empty string names nothing (ENOENT). Without symbolic links this is the node that
  the operating system finds for a path in normal form (no empty component, no \<open>.\<close>
  and no \<open>..\<close>) below an existing working directory. For other paths the operating
  system can fail where the normal form names a node: it follows \<open>..\<close> only out of
  an existing directory, and accepts a final slash or \<open>.\<close> only on a directory.
\<close>

definition resolve :: "env \<Rightarrow> string \<Rightarrow> string list option" where
  "resolve E s = (if s = [] then None else Some (path_comps (abspath E s)))"

fun lookup :: "node \<Rightarrow> string list \<Rightarrow> node option" where
  "lookup n [] = Some n"
| "lookup (File r d) (c # cs) = None"
| "lookup (Dir es) (c # cs) = (case map_of es c of None \<Rightarrow> None | Some n \<Rightarrow> lookup n cs)"

fun kind_of :: "node \<Rightarrow> kind" where
  "kind_of (File r d) = KFile r d"
| "kind_of (Dir es) = KDir"

definition stat :: "node \<Rightarrow> string list \<Rightarrow> kind option" where
  "stat fs p = map_option kind_of (lookup fs p)"

text \<open>
  \<open>alter f fs p\<close> changes the entry at \<open>p\<close>: \<open>f\<close> sees the entry there (\<open>None\<close> when
  there is none) and answers \<open>None\<close> (the system call fails), \<open>Some None\<close> (remove the
  entry) or \<open>Some (Some n)\<close> (put \<open>n\<close> there). The call fails when the parent of \<open>p\<close>
  is not a directory. A new entry is listed last, a replaced one keeps its place.
\<close>

fun alter :: "(node option \<Rightarrow> node option option) \<Rightarrow> node \<Rightarrow> string list \<Rightarrow> node option" where
  "alter f n [] = (case f (Some n) of Some (Some n') \<Rightarrow> Some n' | _ \<Rightarrow> None)"
| "alter f (File r d) (c # cs) = None"
| "alter f (Dir es) [c] =
     (case f (map_of es c) of
        None \<Rightarrow> None
      | Some None \<Rightarrow> Some (Dir (AList.delete c es))
      | Some (Some n') \<Rightarrow> Some (Dir (AList.update c n' es)))"
| "alter f (Dir es) (c # c' # cs) =
     (case map_of es c of
        None \<Rightarrow> None
      | Some sub \<Rightarrow>
          (case alter f sub (c' # cs) of
             None \<Rightarrow> None
           | Some sub' \<Rightarrow> Some (Dir (AList.update c sub' es))))"

text \<open>\<^verbatim>\<open>open(path, "w")\<close> or \<^verbatim>\<open>"wb"\<close>, writing \<open>d\<close>, closing.\<close>

fun open_w :: "string \<Rightarrow> node option \<Rightarrow> node option option" where
  "open_w d None = Some (Some (File True d))"
| "open_w d (Some (File r old)) = Some (Some (File r d))"
| "open_w d (Some (Dir es)) = None"

fun unlink :: "node option \<Rightarrow> node option option" where
  "unlink (Some (File r d)) = Some None"
| "unlink _ = None"

fun rmdir_all :: "node option \<Rightarrow> node option option" where
  "rmdir_all (Some (Dir es)) = Some None"
| "rmdir_all _ = None"

definition write_file :: "env \<Rightarrow> string \<Rightarrow> string \<Rightarrow> node \<Rightarrow> node \<times> (error + unit)" where
  "write_file E path d fs =
     (case resolve E path of
        None \<Rightarrow> (fs, Inl OSError)
      | Some p \<Rightarrow>
          (case alter (open_w d) fs p of
             None \<Rightarrow> (fs, Inl OSError)
           | Some fs' \<Rightarrow> (fs', Inr ())))"

text \<open>\<^verbatim>\<open>open(path, "rb").read()\<close>: \<open>None\<close> when it raises.\<close>

definition read_file :: "env \<Rightarrow> node \<Rightarrow> string \<Rightarrow> string option" where
  "read_file E fs path =
     (case resolve E path of
        None \<Rightarrow> None
      | Some p \<Rightarrow> (case lookup fs p of Some (File True d) \<Rightarrow> Some d | _ \<Rightarrow> None))"

definition isfile :: "env \<Rightarrow> node \<Rightarrow> string \<Rightarrow> bool" where
  "isfile E fs path =
     (case resolve E path of
        None \<Rightarrow> False
      | Some p \<Rightarrow> (case lookup fs p of Some (File r d) \<Rightarrow> True | _ \<Rightarrow> False))"

definition isdir :: "env \<Rightarrow> node \<Rightarrow> string \<Rightarrow> bool" where
  "isdir E fs path =
     (case resolve E path of
        None \<Rightarrow> False
      | Some p \<Rightarrow> (case lookup fs p of Some (Dir es) \<Rightarrow> True | _ \<Rightarrow> False))"

definition os_remove :: "env \<Rightarrow> string \<Rightarrow> node \<Rightarrow> node \<times> (error + unit)" where
  "os_remove E path fs =
     (case resolve E path of
        None \<Rightarrow> (fs, Inl OSError)
      | Some p \<Rightarrow>
          (case alter unlink fs p of
             None \<Rightarrow> (fs, Inl OSError)
           | Some fs' \<Rightarrow> (fs', Inr ())))"

text \<open>
  \<^verbatim>\<open>shutil.rmtree\<close>. On the root directory it removes every entry and then fails,
  as the root itself cannot be removed.
\<close>

definition rmtree :: "env \<Rightarrow> string \<Rightarrow> node \<Rightarrow> node \<times> (error + unit)" where
  "rmtree E path fs =
     (case resolve E path of
        None \<Rightarrow> (fs, Inl OSError)
      | Some p \<Rightarrow>
          (if p = [] then (case fs of Dir es \<Rightarrow> (Dir [], Inl OSError) | _ \<Rightarrow> (fs, Inl OSError))
           else (case alter rmdir_all fs p of
                   None \<Rightarrow> (fs, Inl OSError)
                 | Some fs' \<Rightarrow> (fs', Inr ()))))"

text \<open>
  \<^verbatim>\<open>os.makedirs(path, exist_ok=True)\<close>: every missing directory on the way is
  created; it fails, having created nothing, when a component on the way is a regular file.
\<close>

fun fresh_dirs :: "string list \<Rightarrow> node" where
  "fresh_dirs [] = Dir []"
| "fresh_dirs (c # cs) = Dir [(c, fresh_dirs cs)]"

fun makedirs_node :: "node \<Rightarrow> string list \<Rightarrow> node option" where
  "makedirs_node (File r d) p = None"
| "makedirs_node (Dir es) [] = Some (Dir es)"
| "makedirs_node (Dir es) (c # cs) =
     (case map_of es c of
        None \<Rightarrow> Some (Dir (AList.update c (fresh_dirs cs) es))
      | Some sub \<Rightarrow>
          (case makedirs_node sub cs of
             None \<Rightarrow> None
           | Some sub' \<Rightarrow> Some (Dir (AList.update c sub' es))))"

definition makedirs :: "env \<Rightarrow> string \<Rightarrow> node \<Rightarrow> node \<times> (error + unit)" where
  "makedirs E path fs =
     (case resolve E path of
        None \<Rightarrow> (fs, Inl OSError)
      | Some p \<Rightarrow>
          (case makedirs_node fs p of
             None \<Rightarrow> (fs, Inl OSError)
           | Some fs' \<Rightarrow> (fs', Inr ())))"

section \<open>scripts/garmin\_token\_store.py\<close>

definition OAUTH1_TOKEN_FILENAME :: string where
  "OAUTH1_TOKEN_FILENAME = ''oauth1_token.json''"

definition OAUTH2_TOKEN_FILENAME :: string where
  "OAUTH2_TOKEN_FILENAME = ''oauth2_token.json''"

definition token_store_ready :: "env \<Rightarrow> node \<Rightarrow> string \<Rightarrow> bool" where
  "token_store_ready E fs directory =
     (isfile E fs (path_join directory OAUTH1_TOKEN_FILENAME)
      \<and> isfile E fs (path_join directory OAUTH2_TOKEN_FILENAME))"

definition write_json :: "env \<Rightarrow> string \<Rightarrow> json \<Rightarrow> node \<Rightarrow> node \<times> (error + unit)" where
  "write_json E path payload fs = write_file E path (json_dumps E payload) fs"

text \<open>
  \<^verbatim>\<open>if isinstance(v, dict): _write_json(path, v)\<close> for \<^verbatim>\<open>v = payload.get(key)\<close>.
\<close>

definition write_if_dict :: "env \<Rightarrow> string \<Rightarrow> json option \<Rightarrow> node \<Rightarrow> node \<times> (error + unit)" where
  "write_if_dict E path v fs =
     (case v of Some (JObject kv) \<Rightarrow> write_json E path (JObject kv) fs | _ \<Rightarrow> (fs, Inr ()))"

text \<open>The body of the try block of \<^verbatim>\<open>hydrate_token_store_from_legacy_file\<close>.\<close>

definition load_json_file :: "env \<Rightarrow> node \<Rightarrow> string \<Rightarrow> json option" where
  "load_json_file E fs path =
     (case read_file E fs path of None \<Rightarrow> None | Some text \<Rightarrow> json_loads E text)"

definition hydrate_token_store_from_legacy_file ::
    "env \<Rightarrow> string \<Rightarrow> string \<Rightarrow> node \<Rightarrow> node \<times> (error + unit)" where
  "hydrate_token_store_from_legacy_file E path directory fs =
     (if \<not> isfile E fs path then (fs, Inr ())
      else case load_json_file E fs path of
        None \<Rightarrow> (fs, Inr ())
      | Some (JObject payload) \<Rightarrow>
          (let oauth1 = map_of payload ''oauth1_token'';
               oauth2 = map_of payload ''oauth2_token''
           in case write_if_dict E (path_join directory OAUTH1_TOKEN_FILENAME) oauth1 fs of
                (fs1, Inl e) \<Rightarrow> (fs1, Inl e)
              | (fs1, Inr u) \<Rightarrow>
                  write_if_dict E (path_join directory OAUTH2_TOKEN_FILENAME) oauth2 fs1)
      | Some other \<Rightarrow> (fs, Inr ()))"

definition clear_and_prepare_dir :: "env \<Rightarrow> string \<Rightarrow> node \<Rightarrow> node \<times> (error + unit)" where
  "clear_and_prepare_dir E path fs =
     (if isfile E fs path then
        (case os_remove E path fs of
           (fs1, Inl e) \<Rightarrow> (fs1, Inl e)
         | (fs1, Inr u) \<Rightarrow> makedirs E path fs1)
      else if isdir E fs path then
        (case rmtree E path fs of
           (fs1, Inl e) \<Rightarrow> (fs1, Inl e)
         | (fs1, Inr u) \<Rightarrow> makedirs E path fs1)
      else makedirs E path fs)"

text \<open>\<^verbatim>\<open>ZipInfo.is_dir()\<close> on a POSIX system: the file name ends with a slash.\<close>

definition is_dir :: "zmember \<Rightarrow> bool" where
  "is_dir member = suffix ''/'' (zname member)"

definition unsafe_entry :: "string \<Rightarrow> error" where
  "unsafe_entry raw_name = ValueError (''Unsafe token store archive entry: '' @ raw_name)"

definition backslash :: char where
  "backslash = CHR 0x5C"

definition normalize_name :: "string \<Rightarrow> string" where
  "normalize_name raw_name = map (\<lambda>c. if c = backslash then CHR ''/'' else c) raw_name"

text \<open>
  \<^verbatim>\<open>with archive.open(member, "r") as src, open(destination, "wb") as dst:
  shutil.copyfileobj(src, dst)\<close>: the member is opened first, then the destination.
\<close>

definition copy_member :: "env \<Rightarrow> zmember \<Rightarrow> string \<Rightarrow> node \<Rightarrow> node \<times> (error + unit)" where
  "copy_member E member destination fs =
     (case zcontent member of
        OpenFails e \<Rightarrow> (fs, Inl e)
      | Data d \<Rightarrow> write_file E destination d fs
      | ReadFails d e \<Rightarrow>
          (case write_file E destination d fs of
             (fs1, Inl e1) \<Rightarrow> (fs1, Inl e1)
           | (fs1, Inr u) \<Rightarrow> (fs1, Inl e)))"

text \<open>The body of the loop of \<^verbatim>\<open>_safe_extract_zip\<close>, for one member.\<close>

definition extract_member :: "env \<Rightarrow> string \<Rightarrow> zmember \<Rightarrow> node \<Rightarrow> node \<times> (error + unit)" where
  "extract_member E target_abs member fs =
     (let raw_name = zname member in
      if raw_name = [] then (fs, Inr ())
      else
        let normalized_name = normalize_name raw_name in
        if prefix ''/'' normalized_name \<or> prefix ''../'' normalized_name
          then (fs, Inl (unsafe_entry raw_name))
        else if sublist ''/../'' normalized_name \<or> normalized_name = ''..''
          then (fs, Inl (unsafe_entry raw_name))
        else
          let destination = abspath E (path_join target_abs normalized_name) in
          if destination \<noteq> target_abs \<and> \<not> prefix (target_abs @ ''/'') destination
            then (fs, Inl (unsafe_entry raw_name))
          else if is_dir member then makedirs E destination fs
          else
            (case makedirs E (dirname destination) fs of
               (fs1, Inl e) \<Rightarrow> (fs1, Inl e)
             | (fs1, Inr u) \<Rightarrow> copy_member E member destination fs1))"

fun extract_members :: "env \<Rightarrow> string \<Rightarrow> zmember list \<Rightarrow> node \<Rightarrow> node \<times> (error + unit)" where
  "extract_members E target_abs [] fs = (fs, Inr ())"
| "extract_members E target_abs (member # rest) fs =
     (case extract_member E target_abs member fs of
        (fs1, Inl e) \<Rightarrow> (fs1, Inl e)
      | (fs1, Inr u) \<Rightarrow> extract_members E target_abs rest fs1)"

definition safe_extract_zip :: "env \<Rightarrow> zmember list \<Rightarrow> string \<Rightarrow> node \<Rightarrow> node \<times> (error + unit)" where
  "safe_extract_zip E archive target_dir fs =
     extract_members E (abspath E target_dir) archive fs"

text \<open>
  The try block of \<^verbatim>\<open>write_token_store_bytes\<close>: the value is \<open>extracted\<close>;
  \<^verbatim>\<open>BadZipFile\<close> is caught wherever in the block it is raised, any other exception
  leaves the function.
\<close>

definition try_extract :: "env \<Rightarrow> string \<Rightarrow> string \<Rightarrow> node \<Rightarrow> node \<times> (error + bool)" where
  "try_extract E token_bytes token_store_path fs =
     (case zip_open E token_bytes of
        Inl e \<Rightarrow> (if e = BadZipFile then (fs, Inr False) else (fs, Inl e))
      | Inr archive \<Rightarrow>
          (case safe_extract_zip E archive token_store_path fs of
             (fs1, Inl e) \<Rightarrow> (if e = BadZipFile then (fs1, Inr False) else (fs1, Inl e))
           | (fs1, Inr u) \<Rightarrow> (fs1, Inr True)))"

text \<open>
  \<^verbatim>\<open>if k1 in payload and k2 in payload: _write_json(path, payload)\<close>, and the four
  rules of the legacy fallback in the order of the source.
\<close>

definition write_if_keys :: "env \<Rightarrow> string \<Rightarrow> string list \<Rightarrow> (string \<times> json) list \<Rightarrow> node
    \<Rightarrow> node \<times> (error + unit)" where
  "write_if_keys E path keys payload fs =
     (if \<forall>k \<in> set keys. map_of payload k \<noteq> None
      then write_json E path (JObject payload) fs else (fs, Inr ()))"

definition legacy_fallback :: "env \<Rightarrow> string \<Rightarrow> string \<Rightarrow> node \<Rightarrow> node \<times> (error + unit)" where
  "legacy_fallback E token_bytes token_store_path fs =
     (case json_loads E token_bytes of
        Some (JObject payload) \<Rightarrow>
          (let oauth1 = map_of payload ''oauth1_token'';
               oauth2 = map_of payload ''oauth2_token'';
               path1 = path_join token_store_path OAUTH1_TOKEN_FILENAME;
               path2 = path_join token_store_path OAUTH2_TOKEN_FILENAME
           in case write_if_dict E path1 oauth1 fs of
                (fs1, Inl e) \<Rightarrow> (fs1, Inl e)
              | (fs1, Inr u) \<Rightarrow>
             (case write_if_dict E path2 oauth2 fs1 of
                (fs2, Inl e) \<Rightarrow> (fs2, Inl e)
              | (fs2, Inr u) \<Rightarrow>
             (case write_if_keys E path1 [''oauth_token'', ''oauth_token_secret''] payload fs2 of
                (fs3, Inl e) \<Rightarrow> (fs3, Inl e)
              | (fs3, Inr u) \<Rightarrow>
                write_if_keys E path2 [''access_token''] payload fs3)))
      | _ \<Rightarrow> (fs, Inr ()))"

definition write_token_store_bytes :: "env \<Rightarrow> string \<Rightarrow> string \<Rightarrow> node \<Rightarrow> node \<times> (error + string)" where
  "write_token_store_bytes E token_bytes token_store_path fs =
     (case clear_and_prepare_dir E token_store_path fs of
        (fs0, Inl e) \<Rightarrow> (fs0, Inl e)
      | (fs0, Inr u) \<Rightarrow>
          (case try_extract E token_bytes token_store_path fs0 of
             (fs1, Inl e) \<Rightarrow> (fs1, Inl e)
           | (fs1, Inr extracted) \<Rightarrow>
               if extracted then (fs1, Inr token_store_path)
               else (case legacy_fallback E token_bytes token_store_path fs1 of
                       (fs2, Inl e) \<Rightarrow> (fs2, Inl e)
                     | (fs2, Inr u) \<Rightarrow> (fs2, Inr token_store_path))))"

definition decode_token_store_b64 :: "env \<Rightarrow> string \<Rightarrow> error + string" where
  "decode_token_store_b64 E encoded =
     (case b64decode E encoded of
        Inl exc \<Rightarrow> Inl (ValueError (''Invalid Garmin token_store_b64 value: '' @ exc))
      | Inr data \<Rightarrow> Inr data)"

subsection \<open>The encoder\<close>

text \<open>
  \<^verbatim>\<open>os.walk(top)\<close>, top-down: for a directory, its path, the names of its
  subdirectories and of its other entries in the order of the listing, then the walks of
  the subdirectories in that order. Nothing for a path that is not a directory.
\<close>

fun walk :: "string \<Rightarrow> node \<Rightarrow> (string \<times> string list \<times> string list) list"
  and walk_entries :: "string \<Rightarrow> (string \<times> node) list \<Rightarrow> (string \<times> string list \<times> string list) list" where
  "walk dirpath (File r d) = []"
| "walk dirpath (Dir es) =
     (dirpath, [name. (name, Dir sub) \<leftarrow> es], [name. (name, File r d) \<leftarrow> es]) # walk_entries dirpath es"
| "walk_entries dirpath [] = []"
| "walk_entries dirpath ((name, n) # es) =
     (case n of Dir sub \<Rightarrow> walk (path_join dirpath name) n | File r d \<Rightarrow> []) @ walk_entries dirpath es"

definition os_walk :: "env \<Rightarrow> node \<Rightarrow> string \<Rightarrow> (string \<times> string list \<times> string list) list" where
  "os_walk E fs dirpath =
     (case resolve E dirpath of
        None \<Rightarrow> []
      | Some p \<Rightarrow> (case lookup fs p of None \<Rightarrow> [] | Some n \<Rightarrow> walk dirpath n))"

text \<open>
  Whether a byte string is well-formed UTF-8 (a file name that is not is a Python string
  with lone surrogates, which \<^verbatim>\<open>str.encode\<close> refuses).
\<close>

definition continuation :: "nat \<Rightarrow> bool" where
  "continuation b = (128 \<le> b \<and> b \<le> 191)"

definition sequence_length :: "nat \<Rightarrow> nat" where
  "sequence_length b =
     (if b < 128 then 1
      else if 194 \<le> b \<and> b \<le> 223 then 2
      else if 224 \<le> b \<and> b \<le> 239 then 3
      else if 240 \<le> b \<and> b \<le> 244 then 4
      else 0)"

definition sequence_ok :: "nat \<Rightarrow> nat list \<Rightarrow> bool" where
  "sequence_ok b cs =
     (list_all continuation cs
      \<and> (b = 224 \<longrightarrow> 160 \<le> hd cs) \<and> (b = 237 \<longrightarrow> hd cs \<le> 159)
      \<and> (b = 240 \<longrightarrow> 144 \<le> hd cs) \<and> (b = 244 \<longrightarrow> hd cs \<le> 143))"

fun utf8_bytes :: "nat list \<Rightarrow> bool" where
  "utf8_bytes [] = True"
| "utf8_bytes (b # bs) =
     (0 < sequence_length b \<and> sequence_length b - 1 \<le> length bs
      \<and> sequence_ok b (take (sequence_length b - 1) bs)
      \<and> utf8_bytes (drop (sequence_length b - 1) bs))"

definition utf8_valid :: "string \<Rightarrow> bool" where
  "utf8_valid s = utf8_bytes (map of_char s)"

text \<open>
  \<^verbatim>\<open>ZipFile.write(full_path, arcname=rel_path)\<close>. \<^verbatim>\<open>ZipInfo.from_file\<close> calls
  \<^verbatim>\<open>os.stat\<close>; the member's name is the normal form of \<open>arcname\<close> without leading
  slashes (with a final slash for a directory); a modification time before 1980 raises
  ValueError. Then the file is opened for reading (OSError when that is refused) and the
  local header is written (\<open>file_header\<close>): encoding the name raises UnicodeEncodeError
  (a ValueError) when it is not UTF-8, and packing the header raises
  \<^verbatim>\<open>struct.error\<close> for a year after 2107 or a name longer than 65535 bytes.
\<close>

definition zip_arcname :: "string \<Rightarrow> string" where
  "zip_arcname arcname = dropWhile (\<lambda>c. c = CHR ''/'') (normpath arcname)"

definition year :: "date_time \<Rightarrow> nat" where
  "year t = fst t"

definition file_header :: "zipinfo \<Rightarrow> error + zipinfo" where
  "file_header zinfo =
     (if \<not> utf8_valid (zi_name zinfo) then Inl (ValueError ''surrogates not allowed'')
      else if 2107 < year (zi_time zinfo) \<or> 65535 < length (zi_name zinfo)
        then Inl (OtherError ''struct.error'')
      else Inr zinfo)"

definition archive_write :: "env \<Rightarrow> node \<Rightarrow> string \<Rightarrow> string \<Rightarrow> error + zipinfo" where
  "archive_write E fs full_path arcname =
     (case resolve E full_path of
        None \<Rightarrow> Inl OSError
      | Some p \<Rightarrow>
          (case lookup fs p of
             None \<Rightarrow> Inl OSError
           | Some n \<Rightarrow>
               (let mtime = file_time E p;
                    attr = (file_mode E p mod 65536) * 65536
                in if year mtime < 1980
                   then Inl (ValueError ''ZIP does not support timestamps before 1980'')
                   else (case n of
                      Dir es \<Rightarrow> file_header (ZipInfo (zip_arcname arcname @ ''/'') mtime (attr + 16) [])
                    | File r d \<Rightarrow>
                        if r then file_header (ZipInfo (zip_arcname arcname) mtime attr d)
                        else Inl OSError))))"

text \<open>The two loops of \<^verbatim>\<open>encode_token_store_dir_as_zip_b64\<close>; the value is the
  list of the members written, in order. File names are compared as byte strings, which
  is the order of \<^verbatim>\<open>sorted\<close> on the names as Python strings when they are UTF-8.\<close>

fun add_files :: "env \<Rightarrow> node \<Rightarrow> string \<Rightarrow> string \<Rightarrow> string list \<Rightarrow> error + zipinfo list" where
  "add_files E fs directory root [] = Inr []"
| "add_files E fs directory root (filename # rest) =
     (let full_path = path_join root filename in
      case relpath E full_path directory of
        Inl e \<Rightarrow> Inl e
      | Inr rel_path \<Rightarrow>
          (case archive_write E fs full_path rel_path of
             Inl e \<Rightarrow> Inl e
           | Inr member \<Rightarrow>
               (case add_files E fs directory root rest of
                  Inl e \<Rightarrow> Inl e
                | Inr members \<Rightarrow> Inr (member # members))))"

fun add_walk :: "env \<Rightarrow> node \<Rightarrow> string \<Rightarrow> (string \<times> string list \<times> string list) list
    \<Rightarrow> error + zipinfo list" where
  "add_walk E fs directory [] = Inr []"
| "add_walk E fs directory ((root, dirs, files) # rest) =
     (case add_files E fs directory root (sort files) of
        Inl e \<Rightarrow> Inl e
      | Inr members \<Rightarrow>
          (case add_walk E fs directory rest of
             Inl e \<Rightarrow> Inl e
           | Inr others \<Rightarrow> Inr (members @ others)))"

text \<open>
  The bytes of a closed archive: the local records, the central directory, and the
  end-of-central-directory record (struct format \<^verbatim>\<open><4s4H2LH\<close>, 22 bytes, no comment).
\<close>

fun le_bytes :: "nat \<Rightarrow> nat \<Rightarrow> string" where
  "le_bytes 0 n = []"
| "le_bytes (Suc k) n = char_of (n mod 256) # le_bytes k (n div 256)"

definition end_record :: "nat \<Rightarrow> nat \<Rightarrow> nat \<Rightarrow> string" where
  "end_record entries dir_size dir_offset =
     [CHR ''P'', CHR ''K'', CHR 0x05, CHR 0x06] @ le_bytes 2 0 @ le_bytes 2 0
       @ le_bytes 2 (min entries 65535) @ le_bytes 2 (min entries 65535)
       @ le_bytes 4 (min dir_size 4294967295) @ le_bytes 4 (min dir_offset 4294967295)
       @ le_bytes 2 0"

fun central_directory :: "env \<Rightarrow> nat \<Rightarrow> zipinfo list \<Rightarrow> string" where
  "central_directory E offset [] = []"
| "central_directory E offset (m # ms) =
     zip_central E offset m @ central_directory E (offset + length (zip_local E m)) ms"

definition archive_bytes :: "env \<Rightarrow> zipinfo list \<Rightarrow> string" where
  "archive_bytes E members =
     (let body = concat (map (zip_local E) members);
          directory = central_directory E 0 members
      in body @ directory @ end_record (length members) (length directory) (length body))"

definition encode_token_store_dir_as_zip_b64 :: "env \<Rightarrow> node \<Rightarrow> string \<Rightarrow> error + string" where
  "encode_token_store_dir_as_zip_b64 E fs directory =
     (case add_walk E fs directory (os_walk E fs directory) of
        Inl e \<Rightarrow> Inl e
      | Inr members \<Rightarrow>
          (let data = archive_bytes E members in
           if data = [] then Inl (RuntimeError ''Generated Garmin token store archive was empty.'')
           else Inr (b64encode E data)))"

text \<open>
  Sample archives, built as the repository's test builds its archive, with
  \<^verbatim>\<open>archive.writestr(name, data)\<close> for each member (mode 0600, and here the date
  1980-01-01): \<open>zipfile_bytes\<close> names their bytes. For a member whose reading fails, the
  data is what the writer stored.
\<close>

definition writestr :: "zmember \<Rightarrow> zipinfo" where
  "writestr m = ZipInfo (zname m) (1980, 1, 1, 0, 0, 0) (384 * 65536)
     (case zcontent m of Data d \<Rightarrow> d | OpenFails e \<Rightarrow> [] | ReadFails d e \<Rightarrow> d)"

definition zipfile_bytes :: "env \<Rightarrow> zmember list \<Rightarrow> string" where
  "zipfile_bytes E members = archive_bytes E (map writestr members)"

section \<open>Notions used in the statements\<close>

text \<open>
  A name that a directory entry can have, and the two forms of an absolute path that the
  proofs use: the path before normalisation, and the list of its normalised components.
\<close>

definition valid_name :: "string \<Rightarrow> bool" where
  "valid_name name = (name \<noteq> [] \<and> name \<noteq> ''.'' \<and> name \<noteq> ''..'' \<and> CHR ''/'' \<notin> set name)"

definition rooted_form :: "env \<Rightarrow> string \<Rightarrow> string" where
  "rooted_form E path = (if prefix ''/'' path then path else path_join (getcwd E) path)"

definition abs_comps :: "string \<Rightarrow> string list" where
  "abs_comps z = foldl (norm_step True) [] (split_sep z)"

text \<open>The regular file at a place of the tree, if there is one: readability and content.\<close>

definition file_at :: "node \<Rightarrow> string list \<Rightarrow> (bool \<times> string) option" where
  "file_at fs p = (case lookup fs p of Some (File r d) \<Rightarrow> Some (r, d) | _ \<Rightarrow> None)"

text \<open>
  The two token files of a store directory \<open>T\<close>: \<open>store_state fs T a1 a2\<close> says that
  \<open>T\<close> is a directory and that each token file is absent (\<open>None\<close>) or a readable
  regular file with the given content. \<open>dict_text\<close> and \<open>keys_text\<close> are what one
  rule of the legacy fallback leaves in a file that held \<open>a\<close>.
\<close>

definition store_state :: "node \<Rightarrow> string list \<Rightarrow> string option \<Rightarrow> string option \<Rightarrow> bool" where
  "store_state fs T a1 a2 =
     (stat fs T = Some KDir
      \<and> stat fs (T @ [OAUTH1_TOKEN_FILENAME]) = map_option (KFile True) a1
      \<and> stat fs (T @ [OAUTH2_TOKEN_FILENAME]) = map_option (KFile True) a2)"

definition dict_text :: "env \<Rightarrow> json option \<Rightarrow> string option \<Rightarrow> string option" where
  "dict_text E v a = (case v of Some (JObject kv) \<Rightarrow> Some (json_dumps E (JObject kv)) | _ \<Rightarrow> a)"

definition keys_text :: "env \<Rightarrow> string list \<Rightarrow> (string \<times> json) list \<Rightarrow> string option \<Rightarrow> string option" where
  "keys_text E keys payload a =
     (if \<forall>k \<in> set keys. map_of payload k \<noteq> None then Some (json_dumps E (JObject payload)) else a)"

text \<open>Reading the member does not raise \<^verbatim>\<open>BadZipFile\<close>.\<close>

definition member_intact :: "zmember \<Rightarrow> bool" where
  "member_intact m =
     (case zcontent m of Data d \<Rightarrow> True | OpenFails e \<Rightarrow> e \<noteq> BadZipFile | ReadFails d e \<Rightarrow> e \<noteq> BadZipFile)"

text \<open>
  The conditions under which \<^verbatim>\<open>_safe_extract_zip\<close> rejects an entry: the four
  conditions on the normalized name, and the destination that is neither the target root
  nor below it.
\<close>

definition unsafe_name :: "string \<Rightarrow> bool" where
  "unsafe_name normalized_name =
     (prefix ''/'' normalized_name \<or> prefix ''../'' normalized_name
      \<or> sublist ''/../'' normalized_name \<or> normalized_name = ''..'')"

definition escapes :: "env \<Rightarrow> string \<Rightarrow> string \<Rightarrow> bool" where
  "escapes E target_abs normalized_name =
     (let destination = abspath E (path_join target_abs normalized_name)
      in destination \<noteq> target_abs \<and> \<not> prefix (target_abs @ ''/'') destination)"

definition rejected :: "env \<Rightarrow> string \<Rightarrow> zmember \<Rightarrow> bool" where
  "rejected E target_abs member =
     (unsafe_name (normalize_name (zname member))
      \<or> escapes E target_abs (normalize_name (zname member)))"

text \<open>
  A file system is well formed when the names in every directory are distinct, non-empty,
  without a slash, and neither \<open>.\<close> nor \<open>..\<close>. Two trees are the same but for the order
  of files when every directory lists the same subdirectories in the same order and has
  the same regular files, in any order; they have the same contents when every directory
  has the same entries, in any order.
\<close>

fun is_directory :: "node \<Rightarrow> bool" where
  "is_directory (Dir es) = True"
| "is_directory (File r d) = False"

definition subdirs :: "(string \<times> node) list \<Rightarrow> (string \<times> node) list" where
  "subdirs es = filter (\<lambda>e. is_directory (snd e)) es"

definition plain_files :: "(string \<times> node) list \<Rightarrow> (string \<times> node) list" where
  "plain_files es = filter (\<lambda>e. \<not> is_directory (snd e)) es"

fun well_formed :: "node \<Rightarrow> bool"
  and well_formed_entries :: "(string \<times> node) list \<Rightarrow> bool" where
  "well_formed (File r d) = True"
| "well_formed (Dir es) = (distinct (map fst es) \<and> well_formed_entries es)"
| "well_formed_entries [] = True"
| "well_formed_entries ((name, n) # es) = (valid_name name \<and> well_formed n \<and> well_formed_entries es)"

inductive same_but_file_order :: "node \<Rightarrow> node \<Rightarrow> bool" where
  sf_File: "same_but_file_order (File r d) (File r d)"
| sf_Dir: "map fst (subdirs es) = map fst (subdirs es') \<Longrightarrow>
     list_all2 same_but_file_order (map snd (subdirs es)) (map snd (subdirs es')) \<Longrightarrow>
     mset (plain_files es) = mset (plain_files es') \<Longrightarrow>
     same_but_file_order (Dir es) (Dir es')"

inductive same_contents :: "node \<Rightarrow> node \<Rightarrow> bool" where
  sc_File: "same_contents (File r d) (File r d)"
| sc_Dir: "mset es'' = mset es' \<Longrightarrow>
     list_all2 (\<lambda>e e'. fst e = fst e' \<and> same_contents (snd e) (snd e')) es es'' \<Longrightarrow>
     same_contents (Dir es) (Dir es')"

definition walk_rel :: "(string \<times> string list \<times> string list) \<Rightarrow> (string \<times> string list \<times> string list) \<Rightarrow> bool" where
  "walk_rel a b = (fst a = fst b \<and> fst (snd a) = fst (snd b) \<and> mset (snd (snd a)) = mset (snd (snd b)))"

definition same_wf :: "node \<Rightarrow> node \<Rightarrow> bool" where
  "same_wf n n' = (same_but_file_order n n' \<and> well_formed n \<and> well_formed n')"

subsection \<open>A concrete environment and concrete inputs\<close>

text \<open>
  Sample token payloads with their JSON texts. The sample environment parses and prints
  exactly these texts; its working directory is \<^verbatim>\<open>/work\<close>.
\<close>

definition oauth1_obj :: json where
  "oauth1_obj = JObject [(''oauth_token'', JString ''a''), (''oauth_token_secret'', JString ''b'')]"

definition oauth2_obj :: json where
  "oauth2_obj = JObject [(''access_token'', JString ''c'')]"

definition legacy_obj :: json where
  "legacy_obj = JObject [(''oauth1_token'', oauth1_obj), (''oauth2_token'', oauth2_obj)]"

definition flat_obj :: json where
  "flat_obj = JObject [(''oauth_token'', JString ''a''), (''oauth_token_secret'', JString ''b''),
     (''access_token'', JString ''c'')]"

definition mixed_obj :: json where
  "mixed_obj = JObject [(''oauth1_token'', oauth1_obj), (''oauth2_token'', oauth2_obj),
     (''oauth_token'', JString ''a''), (''oauth_token_secret'', JString ''b''),
     (''access_token'', JString ''c'')]"

definition oauth1_text :: string where
  "oauth1_text = ''{\"oauth_token\": \"a\", \"oauth_token_secret\": \"b\"}''"

definition oauth2_text :: string where
  "oauth2_text = ''{\"access_token\": \"c\"}''"

definition legacy_text :: string where
  "legacy_text = ''{\"oauth1_token\": {\"oauth_token\": \"a\", \"oauth_token_secret\": \"b\"}, \"oauth2_token\": {\"access_token\": \"c\"}}''"

definition flat_text :: string where
  "flat_text = ''{\"oauth_token\": \"a\", \"oauth_token_secret\": \"b\", \"access_token\": \"c\"}''"

definition mixed_text :: string where
  "mixed_text = ''{\"oauth1_token\": {\"oauth_token\": \"a\", \"oauth_token_secret\": \"b\"}, \"oauth2_token\": {\"access_token\": \"c\"}, \"oauth_token\": \"a\", \"oauth_token_secret\": \"b\", \"access_token\": \"c\"}''"

definition json_table :: "(string \<times> json) list" where
  "json_table =
    [(oauth1_text, oauth1_obj), (oauth2_text, oauth2_obj), (legacy_text, legacy_obj),
     (flat_text, flat_obj), (mixed_text, mixed_obj), (''[1]'', JArray [JNumber ''1''])]"

definition sample_dumps :: "json \<Rightarrow> string" where
  "sample_dumps j = (case find (\<lambda>(text, v). v = j) json_table of Some (text, v) \<Rightarrow> text | None \<Rightarrow> ''null'')"

definition base_env :: env where
  "base_env = \<lparr> cwd = ''work'', json_loads = map_of json_table, json_dumps = sample_dumps,
     zip_open = (\<lambda>b. Inl BadZipFile),
     zip_local = (\<lambda>m. [CHR ''P'', CHR ''K'', CHR 0x03, CHR 0x04] @ le_bytes 2 (year (zi_time m))
        @ zi_name m @ [CHR 0x00] @ zi_data m),
     zip_central = (\<lambda>offset m. [CHR ''P'', CHR ''K'', CHR 0x01, CHR 0x02] @ le_bytes 4 (zi_attr m)
        @ le_bytes 4 offset @ zi_name m),
     b64encode = (\<lambda>b. ''b64:'' @ b),
     b64decode = (\<lambda>s. if prefix ''b64:'' s then Inr (drop 4 s) else Inl ''Incorrect padding''),
     file_time = (\<lambda>p. (2024, 5, 17, 9, 30, 0)),
     file_mode = (\<lambda>p. 33188) \<rparr>"

text \<open>What the encoder records in the sample environment for a file with a name and data.\<close>

definition sample_info :: "string \<Rightarrow> string \<Rightarrow> zipinfo" where
  "sample_info name d = ZipInfo name (2024, 5, 17, 9, 30, 0) 2175008768 d"

definition empty_work :: node where
  "empty_work = Dir [(''work'', Dir [])]"

definition prepared_work :: node where
  "prepared_work = Dir [(''work'', Dir [(''store'', Dir [])])]"

definition sample_fs :: node where
  "sample_fs = Dir [(''work'', Dir [(''store'', Dir []),
      (''list.json'', File True ''[1]''),
      (''broken.json'', File True ''{not json''),
      (''secret.json'', File False oauth2_text)])]"

definition aliased_fs :: node where
  "aliased_fs = Dir [(''work'', Dir [(''store'', Dir [(''oauth1_token.json'', File True legacy_text)])])]"

definition evil_archive :: "zmember list" where
  "evil_archive = [ZMember ''../evil.txt'' (Data ''blocked'')]"

definition zip_env :: "zmember list \<Rightarrow> env" where
  "zip_env archive = base_env \<lparr> zip_open :=
     (\<lambda>b. if b = zipfile_bytes base_env archive then Inr archive else Inl BadZipFile) \<rparr>"

definition used_store :: node where
  "used_store = Dir [(''work'', Dir [(''store'', Dir [(''stale.txt'', File True ''old'')]),
     (''plain'', File True ''x'')])]"

definition legacy_fs :: node where
  "legacy_fs = Dir [(''work'', Dir [(''store'', Dir []), (''garth-session.json'', File True legacy_text)])]"

definition hydrated_fs :: node where
  "hydrated_fs = Dir [(''work'', Dir [(''store'', Dir [(''oauth1_token.json'', File True oauth1_text),
       (''oauth2_token.json'', File True oauth2_text)]),
     (''garth-session.json'', File True legacy_text)])]"

definition corrupt_archive :: "zmember list" where
  "corrupt_archive = [ZMember ''oauth1_token.json'' (ReadFails [] BadZipFile),
     ZMember ''../evil.txt'' (Data ''blocked'')]"

definition half_store :: node where
  "half_store = Dir [(''work'', Dir [(''store'', Dir [(''oauth1_token.json'', File True [])])])]"

definition clash_archive :: "zmember list" where
  "clash_archive = [ZMember ''a'' (Data ''x''), ZMember ''a/b'' (Data ''y''),
     ZMember ''../evil.txt'' (Data ''blocked'')]"

definition listed_21 :: node where
  "listed_21 = Dir [(''work'', Dir [(''store'', Dir [(''oauth2_token.json'', File True oauth2_text),
      (''sub'', Dir []), (''oauth1_token.json'', File True oauth1_text)])])]"

definition listed_12 :: node where
  "listed_12 = Dir [(''work'', Dir [(''store'', Dir [(''oauth1_token.json'', File True oauth1_text),
      (''oauth2_token.json'', File True oauth2_text), (''sub'', Dir [])])])]"

definition subdirs_ab :: node where
  "subdirs_ab = Dir [(''work'', Dir [(''store'', Dir [(''a'', Dir [(''x'', File True ''1'')]),
      (''b'', Dir [(''y'', File True ''2'')])])])]"

definition subdirs_ba :: node where
  "subdirs_ba = Dir [(''work'', Dir [(''store'', Dir [(''b'', Dir [(''y'', File True ''2'')]),
      (''a'', Dir [(''x'', File True ''1'')])])])]"

subsection \<open>Notions for the round trip\<close>

text \<open>A property of every entry below a node, given the place of the entry relative to
  the node. \<open>member_of\<close> is an archive member
  that stores a readable file of the snapshot \<open>fs\<close> below the place \<open>D\<close> under its
  relative name; \<open>mirrors\<close> says that everything below the place \<open>T\<close> of \<open>fs\<close> is
  a copy of what the snapshot \<open>S\<close> has at the same relative place below \<open>D\<close>.\<close>

fun every_below :: "(string list \<Rightarrow> node \<Rightarrow> bool) \<Rightarrow> string list \<Rightarrow> node \<Rightarrow> bool"
  and every_below_in :: "(string list \<Rightarrow> node \<Rightarrow> bool) \<Rightarrow> string list \<Rightarrow> (string \<times> node) list \<Rightarrow> bool" where
  "every_below P r (File rd d) = True"
| "every_below P r (Dir es) = every_below_in P r es"
| "every_below_in P r [] = True"
| "every_below_in P r ((name, n) # es) =
     (P (r @ [name]) n \<and> every_below P (r @ [name]) n \<and> every_below_in P r es)"

text \<open>
  An entry at the relative place \<open>r\<close> below the directory at \<open>D\<close> that the encoder can
  archive and the extraction can restore: its name has no backslash and no NUL; a regular
  file is readable, its modification time is in the years 1980 to 2107, and its relative
  path is UTF-8 of at most 65535 bytes.
\<close>

definition archivable :: "env \<Rightarrow> string list \<Rightarrow> string list \<Rightarrow> node \<Rightarrow> bool" where
  "archivable E D r n =
     (backslash \<notin> set (last r) \<and> CHR 0x00 \<notin> set (last r)
      \<and> (case n of
           Dir es \<Rightarrow> True
         | File rd d \<Rightarrow> rd \<and> 1980 \<le> year (file_time E (D @ r)) \<and> year (file_time E (D @ r)) \<le> 2107
             \<and> utf8_valid (sep_join r) \<and> length (sep_join r) \<le> 65535))"

text \<open>
  The limits of the operating system on the paths that the program passes to it: a name
  has at most 255 bytes (\<^verbatim>\<open>NAME_MAX\<close>), the path of the entry under the source
  directory and under the absolute target at most 4095 (\<^verbatim>\<open>PATH_MAX\<close>). The model
  of the file system has no such limits; the round trip is stated within them.
\<close>

definition within_limits :: "string \<Rightarrow> string \<Rightarrow> string list \<Rightarrow> bool" where
  "within_limits directory target_abs r =
     (length (last r) \<le> 255
      \<and> length (directory @ ''/'' @ sep_join r) \<le> 4095
      \<and> length (target_abs @ ''/'' @ sep_join r) \<le> 4095)"

text \<open>
  A path in normal form: relative or absolute, its components are names (not empty, not
  \<open>.\<close>, not \<open>..\<close>), so there is no final slash. For such a path, and a working
  directory that exists, the operating system finds the node that \<open>resolve\<close> names.
\<close>

definition plain_path :: "string \<Rightarrow> bool" where
  "plain_path s =
     (case split_sep s of
        [] \<Rightarrow> False
      | c # rest \<Rightarrow> if c = [] then rest \<noteq> [] \<and> list_all valid_name rest
                   else list_all valid_name (c # rest))"

definition working_directory :: "env \<Rightarrow> node \<Rightarrow> bool" where
  "working_directory E fs =
     (list_all valid_name (split_sep (cwd E)) \<and> stat fs (split_sep (cwd E)) = Some KDir)"

text \<open>What reading an archive gives for a member that \<^verbatim>\<open>ZipFile.write\<close> stored.\<close>

definition stored :: "zipinfo \<Rightarrow> zmember" where
  "stored zinfo = ZMember (zi_name zinfo) (Data (zi_data zinfo))"

definition member_of :: "node \<Rightarrow> string list \<Rightarrow> zmember \<Rightarrow> bool" where
  "member_of fs D m =
     (\<exists>r c. r \<noteq> [] \<and> list_all valid_name r \<and> (\<forall>x \<in> set r. backslash \<notin> set x)
        \<and> m = ZMember (sep_join r) (Data c) \<and> lookup fs (D @ r) = Some (File True c))"

definition mirrors :: "node \<Rightarrow> string list \<Rightarrow> node \<Rightarrow> string list \<Rightarrow> bool" where
  "mirrors S D fs T =
     ((\<forall>q. prefix q T \<longrightarrow> stat fs q = Some KDir)
      \<and> (\<forall>r. r \<noteq> [] \<longrightarrow>
           (case stat fs (T @ r) of
              None \<Rightarrow> True
            | Some KDir \<Rightarrow> stat S (D @ r) = Some KDir
            | Some (KFile rd c) \<Rightarrow> rd \<and> stat S (D @ r) = Some (KFile True c))))"

definition is_file_at :: "node \<Rightarrow> string list \<Rightarrow> bool" where
  "is_file_at fs q = (\<exists>rd c. stat fs q = Some (KFile rd c))"

definition portable_store :: "env \<Rightarrow> node \<Rightarrow> string \<Rightarrow> string \<Rightarrow> bool" where
  "portable_store E fs directory target =
     (case resolve E directory of
        None \<Rightarrow> False
      | Some D \<Rightarrow>
          (case lookup fs D of
             None \<Rightarrow> False
           | Some n \<Rightarrow>
               every_below (\<lambda>r m. archivable E D r m \<and> within_limits directory (abspath E target) r) [] n))"

text \<open>The sample environment with a zip reader for the archive of the given members.\<close>

definition unzip_env :: "zipinfo list \<Rightarrow> env" where
  "unzip_env members = base_env \<lparr> zip_open :=
     (\<lambda>b. if b = archive_bytes base_env members then Inr (map stored members) else Inl BadZipFile) \<rparr>"

definition token_infos :: "zipinfo list" where
  "token_infos = [sample_info ''oauth1_token.json'' oauth1_text,
     sample_info ''oauth2_token.json'' oauth2_text]"

definition dotted_name :: string where
  "dotted_name = [CHR ''.'', CHR ''.'', CHR 0x5C, CHR ''x'']"

definition dotted_store :: node where
  "dotted_store = Dir [(''work'', Dir [(''store'', Dir [(dotted_name, File True ''x''),
      (''oauth1_token.json'', File True oauth1_text),
      (''oauth2_token.json'', File True oauth2_text)])])]"

definition dotted_infos :: "zipinfo list" where
  "dotted_infos = [sample_info dotted_name ''x'',
     sample_info ''oauth1_token.json'' oauth1_text,
     sample_info ''oauth2_token.json'' oauth2_text]"

definition dotted_cleared :: node where
  "dotted_cleared = Dir [(''work'', Dir [(''store'', Dir [(dotted_name, File True ''x''),
      (''oauth1_token.json'', File True oauth1_text),
      (''oauth2_token.json'', File True oauth2_text)]), (''copy'', Dir [])])]"

section \<open>Lemmas on paths\<close>

lemma split_sep_not_Nil [simp]: "split_sep s \<noteq> []"
  by (induction s) (auto split: list.splits)

lemma split_sep_append_sep: "split_sep (a @ CHR ''/'' # b) = split_sep a @ split_sep b"
proof (induction a)
  case Nil
  then show ?case by simp
next
  case (Cons c a)
  then show ?case by (cases "split_sep a") auto
qed

lemma split_sep_no_sep: "c \<in> set (split_sep s) \<Longrightarrow> CHR ''/'' \<notin> set c"
proof (induction s arbitrary: c)
  case Nil
  then show ?case by simp
next
  case (Cons a s)
  then show ?case by (cases "split_sep s") (auto split: if_splits)
qed

lemma split_sep_single: "CHR ''/'' \<notin> set s \<Longrightarrow> split_sep s = [s]"
  by (induction s) auto

lemma split_sep_sep_join:
  "cs \<noteq> [] \<Longrightarrow> \<forall>c \<in> set cs. CHR ''/'' \<notin> set c \<Longrightarrow> split_sep (sep_join cs) = cs"
proof (induction cs rule: sep_join.induct)
  case 1
  then show ?case by simp
next
  case (2 x)
  then show ?case by (simp add: split_sep_single)
next
  case (3 x y ys)
  then show ?case by (simp add: split_sep_append_sep split_sep_single)
qed

lemma path_comps_append_sep: "path_comps (a @ CHR ''/'' # b) = path_comps a @ path_comps b"
  by (simp add: path_comps_def split_sep_append_sep)

lemma path_comps_sep_Cons [simp]: "path_comps (CHR ''/'' # s) = path_comps s"
  by (simp add: path_comps_def)

lemma path_comps_replicate_sep [simp]: "path_comps (replicate k CHR ''/'' @ s) = path_comps s"
  by (induction k) auto

lemma path_comps_sep_join:
  "\<forall>c \<in> set cs. c \<noteq> [] \<and> CHR ''/'' \<notin> set c \<Longrightarrow> path_comps (sep_join cs) = cs"
proof (cases "cs = []")
  case True
  then show ?thesis by (simp add: path_comps_def)
next
  case False
  assume a: "\<forall>c \<in> set cs. c \<noteq> [] \<and> CHR ''/'' \<notin> set c"
  with False have "split_sep (sep_join cs) = cs" by (simp add: split_sep_sep_join)
  with a show ?thesis by (simp add: path_comps_def filter_id_conv)
qed

lemma norm_step_valid:
  "list_all valid_name acc \<Longrightarrow> CHR ''/'' \<notin> set name \<Longrightarrow> list_all valid_name (norm_step True acc name)"
  by (auto simp: norm_step_def valid_name_def list_all_iff dest: in_set_butlastD)

lemma foldl_norm_step_valid:
  "list_all valid_name acc \<Longrightarrow> \<forall>c \<in> set xs. CHR ''/'' \<notin> set c \<Longrightarrow>
   list_all valid_name (foldl (norm_step True) acc xs)"
  by (induction xs arbitrary: acc) (auto simp: norm_step_valid)

lemma abs_comps_valid: "list_all valid_name (abs_comps z)"
  unfolding abs_comps_def
  by (rule foldl_norm_step_valid) (auto dest: split_sep_no_sep)

lemma sep_join_Nil_iff: "list_all valid_name cs \<Longrightarrow> sep_join cs = [] \<longleftrightarrow> cs = []"
  by (induction cs rule: sep_join.induct) (auto simp: valid_name_def)

lemma normpath_rooted:
  assumes "prefix ''/'' z"
  shows "normpath z = replicate (initial_slashes z) CHR ''/'' @ sep_join (abs_comps z)"
    and "0 < initial_slashes z"
proof -
  from assms show k: "0 < initial_slashes z" by (simp add: initial_slashes_def)
  from assms have "z \<noteq> []" by auto
  with k show "normpath z = replicate (initial_slashes z) CHR ''/'' @ sep_join (abs_comps z)"
    by (simp add: normpath_def abs_comps_def Let_def)
qed

lemma path_comps_normpath:
  assumes "prefix ''/'' z"
  shows "path_comps (normpath z) = abs_comps z"
proof -
  have "\<forall>c \<in> set (abs_comps z). c \<noteq> [] \<and> CHR ''/'' \<notin> set c"
    using abs_comps_valid[of z] by (auto simp: list_all_iff valid_name_def)
  then show ?thesis
    by (simp add: normpath_rooted(1)[OF assms] path_comps_sep_join)
qed

lemma rooted_form_prefix: "prefix ''/'' (rooted_form E path)"
  by (auto simp: rooted_form_def path_join_def getcwd_def)

lemma abspath_rooted_form: "abspath E path = normpath (rooted_form E path)"
  by (simp add: abspath_def rooted_form_def)

lemma path_comps_abspath: "path_comps (abspath E path) = abs_comps (rooted_form E path)"
  by (simp add: abspath_rooted_form path_comps_normpath rooted_form_prefix)

lemma resolve_eq: "resolve E s = (if s = [] then None else Some (abs_comps (rooted_form E s)))"
  by (simp add: resolve_def path_comps_abspath)

lemma foldl_norm_step_clean:
  "list_all valid_name xs \<Longrightarrow> foldl (norm_step b) acc xs = acc @ xs"
  by (induction xs arbitrary: acc) (auto simp: norm_step_def valid_name_def)

lemma foldl_norm_step_skip:
  "foldl (norm_step b) acc (replicate k []) = acc"
  by (induction k) (auto simp: norm_step_def)

lemma split_sep_replicate_sep: "split_sep (replicate k CHR ''/'' @ s) = replicate k [] @ split_sep s"
  by (induction k) auto

lemma prefix_sep_abspath: "prefix ''/'' (abspath E path)"
  using normpath_rooted[OF rooted_form_prefix, of E path]
  by (cases "initial_slashes (rooted_form E path)") (auto simp: abspath_rooted_form)

lemma abs_comps_rooted_normal:
  "list_all valid_name cs \<Longrightarrow> abs_comps (replicate k CHR ''/'' @ sep_join cs) = cs"
proof (cases "cs = []")
  case True
  have "split_sep (replicate k CHR ''/'') = replicate k [] @ [[]]"
    using split_sep_replicate_sep[of k "[]"] by simp
  with True show ?thesis
    by (simp add: abs_comps_def foldl_norm_step_skip norm_step_def)
next
  case False
  assume v: "list_all valid_name cs"
  then have "split_sep (sep_join cs) = cs"
    using False by (intro split_sep_sep_join) (auto simp: list_all_iff valid_name_def)
  with v show ?thesis
    by (simp add: abs_comps_def split_sep_replicate_sep foldl_norm_step_skip foldl_norm_step_clean)
qed

lemma path_comps_abspath_idem: "path_comps (abspath E (abspath E path)) = path_comps (abspath E path)"
proof -
  let ?z = "rooted_form E path"
  have a: "abspath E path = replicate (initial_slashes ?z) CHR ''/'' @ sep_join (abs_comps ?z)"
    by (simp add: abspath_rooted_form normpath_rooted(1)[OF rooted_form_prefix])
  have "rooted_form E (abspath E path) = abspath E path"
    using prefix_sep_abspath[of E path] by (simp add: rooted_form_def)
  then have "path_comps (abspath E (abspath E path)) = abs_comps (abspath E path)"
    by (simp add: path_comps_abspath)
  also have "\<dots> = abs_comps ?z"
    by (subst a) (rule abs_comps_rooted_normal[OF abs_comps_valid])
  finally show ?thesis by (simp add: path_comps_abspath)
qed

lemma resolve_abspath: "resolve E (abspath E path) = Some (path_comps (abspath E path))"
  using prefix_sep_abspath[of E path] by (auto simp: resolve_def path_comps_abspath_idem)

lemma prefix_path_comps:
  "prefix (t @ ''/'') d \<Longrightarrow> prefix (path_comps t) (path_comps d)"
  by (auto simp: prefix_def path_comps_append_sep)

lemma suffix_single_append: "s \<noteq> [] \<Longrightarrow> suffix [c] (a @ s) = suffix [c] s"
  by (cases s rule: rev_cases) (auto simp: suffix_def)

lemma rooted_form_path_join:
  assumes "s \<noteq> []" "\<not> prefix ''/'' name"
  shows "rooted_form E (path_join s name) = path_join (rooted_form E s) name"
proof (cases "prefix ''/'' s")
  case True
  with assms have "prefix ''/'' (path_join s name)"
    by (auto simp: path_join_def prefix_def)
  with True show ?thesis by (simp add: rooted_form_def)
next
  case False
  with assms have "\<not> prefix ''/'' (path_join s name)"
    by (cases s) (auto simp: path_join_def)
  moreover have "suffix ''/'' (getcwd E @ s) = suffix ''/'' s"
    "suffix ''/'' (getcwd E @ ''/'' @ s) = suffix ''/'' s"
    using suffix_single_append[OF assms(1)] suffix_single_append[OF assms(1), of _ "getcwd E @ ''/''"]
    by auto
  moreover have "path_join s name \<noteq> []" using assms by (auto simp: path_join_def)
  ultimately show ?thesis using False assms
    by (auto simp: rooted_form_def path_join_def)
qed

lemma norm_step_valid_name: "valid_name name \<Longrightarrow> norm_step b acc name = acc @ [name]"
  by (simp add: norm_step_def valid_name_def)

lemma abs_comps_path_join:
  assumes "valid_name name"
  shows "abs_comps (path_join z name) = abs_comps z @ [name]"
proof -
  from assms have n: "\<not> prefix ''/'' name" "split_sep name = [name]"
    by (auto simp: valid_name_def split_sep_single prefix_def)
  show ?thesis
  proof (cases "suffix ''/'' z")
    case True
    then obtain z' where z: "z = z' @ ''/''" by (auto simp: suffix_def)
    have "split_sep z = split_sep z' @ [[]]"
      using split_sep_append_sep[of z' "[]"] z by simp
    moreover have "split_sep (z @ name) = split_sep z' @ [name]"
      using split_sep_append_sep[of z' name] z n by simp
    ultimately show ?thesis using True n assms
      by (simp add: path_join_def abs_comps_def norm_step_valid_name) (simp add: norm_step_def)
  next
    case False
    show ?thesis
    proof (cases "z = []")
      case True
      with n assms show ?thesis
        by (simp add: path_join_def abs_comps_def norm_step_valid_name) (simp add: norm_step_def)
    next
      case nz: False
      have "split_sep (z @ ''/'' @ name) = split_sep z @ [name]"
        using split_sep_append_sep[of z name] n by simp
      with False nz n assms show ?thesis
        by (simp add: path_join_def abs_comps_def norm_step_valid_name)
    qed
  qed
qed

lemma path_join_not_Nil: "name \<noteq> [] \<Longrightarrow> path_join s name \<noteq> []"
  by (auto simp: path_join_def)

lemma resolve_path_join:
  assumes "valid_name name" "resolve E s = Some D"
  shows "resolve E (path_join s name) = Some (D @ [name])"
proof -
  from assms have s: "s \<noteq> []" and D: "D = abs_comps (rooted_form E s)"
    by (auto simp: resolve_eq split: if_splits)
  from assms have n: "\<not> prefix ''/'' name" "name \<noteq> []"
    by (auto simp: valid_name_def prefix_def)
  from n have "path_join s name \<noteq> []" by (simp add: path_join_not_Nil)
  then show ?thesis
    by (simp add: resolve_eq rooted_form_path_join[OF s n(1)] abs_comps_path_join[OF assms(1)] D)
qed

lemma initial_slashes_replicate:
  "k = 1 \<or> k = 2 \<Longrightarrow> \<not> prefix ''/'' s \<Longrightarrow> initial_slashes (replicate k CHR ''/'' @ s) = k"
  by (auto simp: initial_slashes_def numeral_2_eq_2)

lemma initial_slashes_range: "prefix ''/'' z \<Longrightarrow> initial_slashes z = 1 \<or> initial_slashes z = 2"
  by (simp add: initial_slashes_def)

lemma valid_name_first: "valid_name x \<Longrightarrow> \<exists>c cs. x = c # cs \<and> c \<noteq> CHR ''/''"
  by (cases x) (auto simp: valid_name_def)

lemma sep_join_no_leading_sep:
  assumes "list_all valid_name cs"
  shows "\<not> prefix ''/'' (sep_join cs @ s) \<or> (cs = [] \<and> prefix ''/'' s)"
proof (cases cs)
  case Nil
  then show ?thesis by simp
next
  case (Cons x xs)
  with assms obtain c r where "x = c # r" "c \<noteq> CHR ''/''"
    using valid_name_first[of x] by auto
  with Cons show ?thesis by (cases xs) auto
qed

lemma normpath_normal:
  assumes k: "k = 1 \<or> k = 2" and v: "list_all valid_name cs"
  shows "normpath (replicate k CHR ''/'' @ sep_join cs) = replicate k CHR ''/'' @ sep_join cs"
proof -
  let ?p = "replicate k CHR ''/'' @ sep_join cs"
  from k have p: "prefix ''/'' ?p" by (auto simp: numeral_2_eq_2)
  from sep_join_no_leading_sep[OF v, of "[]"] have "\<not> prefix ''/'' (sep_join cs)" by auto
  from initial_slashes_replicate[OF k this] normpath_rooted(1)[OF p] abs_comps_rooted_normal[OF v, of k]
  show ?thesis by simp
qed

lemma normpath_normal_slash:
  assumes k: "k = 1 \<or> k = 2" and v: "list_all valid_name cs" and ne: "cs \<noteq> []"
  shows "normpath (replicate k CHR ''/'' @ sep_join cs @ ''/'') = replicate k CHR ''/'' @ sep_join cs"
proof -
  let ?p = "replicate k CHR ''/'' @ sep_join cs @ ''/''"
  from k have p: "prefix ''/'' ?p" by (auto simp: numeral_2_eq_2)
  from sep_join_no_leading_sep[OF v, of "''/''"] ne have "\<not> prefix ''/'' (sep_join cs @ ''/'')" by auto
  from initial_slashes_replicate[OF k this] have i: "initial_slashes ?p = k" .
  have "split_sep ?p = split_sep (replicate k CHR ''/'' @ sep_join cs) @ [[]]"
    using split_sep_append_sep[of "replicate k CHR ''/'' @ sep_join cs" "[]"] by simp
  then have "abs_comps ?p = abs_comps (replicate k CHR ''/'' @ sep_join cs)"
    by (simp add: abs_comps_def norm_step_def)
  with abs_comps_rooted_normal[OF v, of k] have "abs_comps ?p = cs" by simp
  with i normpath_rooted(1)[OF p] show ?thesis by simp
qed

lemma abspath_form:
  "\<exists>k. (k = 1 \<or> k = 2) \<and> abspath E x = replicate k CHR ''/'' @ sep_join (path_comps (abspath E x))
     \<and> list_all valid_name (path_comps (abspath E x))"
proof -
  let ?z = "rooted_form E x"
  have "abspath E x = replicate (initial_slashes ?z) CHR ''/'' @ sep_join (abs_comps ?z)"
    by (simp add: abspath_rooted_form normpath_rooted(1)[OF rooted_form_prefix])
  with initial_slashes_range[OF rooted_form_prefix, of E x] abs_comps_valid[of ?z]
  show ?thesis unfolding path_comps_abspath by blast
qed

lemma abspath_idem: "abspath E (abspath E x) = abspath E x"
proof -
  from abspath_form[of E x] obtain k where k: "k = 1 \<or> k = 2"
    and f: "abspath E x = replicate k CHR ''/'' @ sep_join (path_comps (abspath E x))"
    and v: "list_all valid_name (path_comps (abspath E x))" by blast
  have "abspath E (abspath E x) = normpath (abspath E x)"
    using prefix_sep_abspath[of E x] by (simp add: abspath_def)
  also have "\<dots> = abspath E x"
    using normpath_normal[OF k v] f by simp
  finally show ?thesis .
qed

lemma sep_join_last_not_sep:
  "list_all valid_name cs \<Longrightarrow> cs \<noteq> [] \<Longrightarrow> \<not> suffix ''/'' (s @ sep_join cs)"
proof (induction cs arbitrary: s rule: sep_join.induct)
  case 1
  then show ?case by simp
next
  case (2 x)
  then obtain y ys where "x = ys @ [y]" "y \<noteq> CHR ''/''"
    by (cases x rule: rev_cases) (auto simp: valid_name_def)
  then show ?case by (simp add: suffix_def)
next
  case (3 x y ys)
  from 3(1)[of "s @ x @ ''/''"] 3(2) show ?case by simp
qed

lemma abspath_join_empty: "abspath E (path_join (abspath E t) []) = abspath E t"
proof -
  from abspath_form[of E t] obtain k where k: "k = 1 \<or> k = 2"
    and f: "abspath E t = replicate k CHR ''/'' @ sep_join (path_comps (abspath E t))"
    and v: "list_all valid_name (path_comps (abspath E t))" by blast
  let ?cs = "path_comps (abspath E t)"
  show ?thesis
  proof (cases "suffix ''/'' (abspath E t)")
    case True
    then have "path_join (abspath E t) [] = abspath E t" by (simp add: path_join_def)
    then show ?thesis by (simp add: abspath_idem)
  next
    case False
    then have j: "path_join (abspath E t) [] = abspath E t @ ''/''"
      using prefix_sep_abspath[of E t] by (auto simp: path_join_def)
    have ne: "?cs \<noteq> []"
    proof
      assume "?cs = []"
      with f k have "abspath E t = ''/'' \<or> abspath E t = ''//''" by (auto simp: numeral_2_eq_2)
      with False show False by (auto simp: suffix_def)
    qed
    have "prefix ''/'' (abspath E t @ ''/'')" using prefix_sep_abspath[of E t] by (auto simp: prefix_def)
    then have "abspath E (abspath E t @ ''/'') = normpath (abspath E t @ ''/'')"
      by (simp add: abspath_def)
    also have "\<dots> = normpath (replicate k CHR ''/'' @ sep_join ?cs @ ''/'')"
      using arg_cong[OF f, of "\<lambda>s. normpath (s @ ''/'')"] by simp
    also have "\<dots> = abspath E t" using normpath_normal_slash[OF k v ne] f by simp
    finally show ?thesis using j by simp
  qed
qed

lemma resolve_some: "s \<noteq> [] \<Longrightarrow> resolve E s = Some (path_comps (abspath E s))"
  by (simp add: resolve_def)

section \<open>Lemmas on the file system\<close>

lemma lookup_Dir_single [simp]: "lookup (Dir es) [c] = map_of es c"
  by (simp split: option.splits)

lemma stat_Nil [simp]: "stat n [] = Some (kind_of n)"
  by (simp add: stat_def)

lemma stat_File_Cons [simp]: "stat (File r d) (c # cs) = None"
  by (simp add: stat_def)

lemma stat_Dir_Cons: "stat (Dir es) (c # cs) = (case map_of es c of None \<Rightarrow> None | Some n \<Rightarrow> stat n cs)"
  by (simp add: stat_def split: option.splits)

lemma alter_stat_other:
  "alter f n p = Some n' \<Longrightarrow> \<not> prefix p q \<Longrightarrow> stat n' q = stat n q"
proof (induction f n p arbitrary: n' q rule: alter.induct)
  case (1 f n)
  then show ?case by simp
next
  case (2 f r d c cs)
  then show ?case by simp
next
  case (3 f es c)
  show ?case
  proof (cases q)
    case Nil
    with 3 show ?thesis by (auto split: option.splits)
  next
    case (Cons a q')
    with 3 have "a \<noteq> c" by auto
    with 3 Cons show ?thesis
      by (auto simp: stat_Dir_Cons AList.update_conv' AList.delete_conv' split: option.splits)
  qed
next
  case (4 f es c c' cs)
  from 4(2) obtain sub sub' where sub: "map_of es c = Some sub"
    and sub': "alter f sub (c' # cs) = Some sub'" and n': "n' = Dir (AList.update c sub' es)"
    by (auto split: option.splits)
  show ?case
  proof (cases q)
    case Nil
    with n' show ?thesis by simp
  next
    case (Cons a q')
    show ?thesis
    proof (cases "a = c")
      case True
      with 4(3) Cons have "\<not> prefix (c' # cs) q'" by simp
      from 4(1)[OF sub sub' this] True Cons n' sub show ?thesis
        by (simp add: stat_Dir_Cons AList.update_conv')
    next
      case False
      with Cons n' show ?thesis by (simp add: stat_Dir_Cons AList.update_conv')
    qed
  qed
qed

lemma alter_lookup_at:
  "alter f n p = Some n' \<Longrightarrow>
   lookup n' (p @ r) = (case f (lookup n p) of Some (Some m) \<Rightarrow> lookup m r | _ \<Rightarrow> None)"
proof (induction f n p arbitrary: n' rule: alter.induct)
  case (1 f n)
  then show ?case by (auto split: option.splits)
next
  case (2 f r d c cs)
  then show ?case by simp
next
  case (3 f es c)
  then show ?case
    by (auto simp: AList.update_conv' AList.delete_conv' split: option.splits)
next
  case (4 f es c c' cs)
  from 4(2) obtain sub sub' where sub: "map_of es c = Some sub"
    and sub': "alter f sub (c' # cs) = Some sub'" and n': "n' = Dir (AList.update c sub' es)"
    by (auto split: option.splits)
  from 4(1)[OF sub sub'] sub n' show ?case
    by (simp add: AList.update_conv')
qed

lemma alter_succeeds:
  "lookup n (butlast p) = Some (Dir es) \<Longrightarrow> p \<noteq> [] \<Longrightarrow> f (lookup n p) \<noteq> None \<Longrightarrow>
   \<exists>n'. alter f n p = Some n'"
proof (induction f n p arbitrary: es rule: alter.induct)
  case (1 f n)
  then show ?case by simp
next
  case (2 f r d c cs)
  then show ?case by (cases cs) auto
next
  case (3 f es c)
  then show ?case by (auto split: option.splits)
next
  case (4 f es' c c' cs)
  from 4(2) obtain sub where sub: "map_of es' c = Some sub"
    and l: "lookup sub (butlast (c' # cs)) = Some (Dir es)"
    by (auto split: option.splits if_splits)
  from 4(4) sub have "f (lookup sub (c' # cs)) \<noteq> None" by simp
  from 4(1)[OF sub l _ this] obtain n' where "alter f sub (c' # cs) = Some n'" by auto
  with sub show ?case by simp
qed

lemma stat_fresh_dirs: "stat (fresh_dirs cs) q = (if prefix q cs then Some KDir else None)"
proof (induction cs arbitrary: q)
  case Nil
  then show ?case by (cases q) (auto simp: stat_Dir_Cons)
next
  case (Cons c cs)
  then show ?case by (cases q) (auto simp: stat_Dir_Cons)
qed

lemma makedirs_node_stat:
  "makedirs_node n p = Some n' \<Longrightarrow> stat n' q = (if prefix q p then Some KDir else stat n q)"
proof (induction n p arbitrary: n' q rule: makedirs_node.induct)
  case (1 r d p)
  then show ?case by simp
next
  case (2 es)
  then show ?case by (cases q) auto
next
  case (3 es c cs)
  show ?case
  proof (cases q)
    case Nil
    with 3(2) show ?thesis by (auto split: option.splits)
  next
    case (Cons a q')
    show ?thesis
    proof (cases "map_of es c")
      case None
      with 3(2) Cons show ?thesis
        by (auto simp: stat_Dir_Cons AList.update_conv' stat_fresh_dirs)
    next
      case (Some sub)
      with 3(2) obtain sub' where sub': "makedirs_node sub cs = Some sub'"
        and n': "n' = Dir (AList.update c sub' es)"
        by (auto split: option.splits)
      from 3(1)[OF Some sub'] Some n' Cons show ?thesis
        by (auto simp: stat_Dir_Cons AList.update_conv')
    qed
  qed
qed

lemma makedirs_node_succeeds:
  "(\<And>q. prefix q p \<Longrightarrow> stat n q = None \<or> stat n q = Some KDir) \<Longrightarrow>
   \<exists>n'. makedirs_node n p = Some n'"
proof (induction n p rule: makedirs_node.induct)
  case (1 r d p)
  have "prefix [] p" by simp
  from 1[OF this] show ?case by simp
next
  case (2 es)
  then show ?case by simp
next
  case (3 es c cs)
  show ?case
  proof (cases "map_of es c")
    case None
    then show ?thesis by simp
  next
    case (Some sub)
    have "\<exists>n'. makedirs_node sub cs = Some n'"
    proof (rule 3(1)[OF Some])
      fix q assume "prefix q cs"
      then have "prefix (c # q) (c # cs)" by simp
      from 3(2)[OF this] Some show "stat sub q = None \<or> stat sub q = Some KDir"
        by (simp add: stat_Dir_Cons)
    qed
    with Some show ?thesis by auto
  qed
qed

lemma lookup_append:
  "lookup n (p @ r) = (case lookup n p of None \<Rightarrow> None | Some m \<Rightarrow> lookup m r)"
proof (induction p arbitrary: n)
  case Nil
  then show ?case by simp
next
  case (Cons c p)
  then show ?case by (cases n) (auto split: option.splits)
qed

lemma alter_Some_f: "alter f n p = Some n' \<Longrightarrow> f (lookup n p) \<noteq> None"
  by (induction f n p arbitrary: n' rule: alter.induct) (auto split: option.splits)

lemma open_w_cases:
  "open_w d x \<noteq> None \<Longrightarrow>
   (x = None \<and> open_w d x = Some (Some (File True d)))
   \<or> (\<exists>r old. x = Some (File r old) \<and> open_w d x = Some (Some (File r d)))"
  by (cases "(d, x)" rule: open_w.cases) auto

lemma alter_open_w_stat:
  assumes "alter (open_w d) n p = Some n'"
  shows "stat n' q =
     (if q = p then Some (KFile (case stat n p of Some (KFile r c) \<Rightarrow> r | _ \<Rightarrow> True) d)
      else stat n q)"
proof -
  from alter_Some_f[OF assms] have f: "open_w d (lookup n p) \<noteq> None" .
  note at = alter_lookup_at[OF assms]
  show ?thesis
  proof (cases "prefix p q")
    case False
    with alter_stat_other[OF assms] show ?thesis by auto
  next
    case True
    then obtain r where q: "q = p @ r" by (auto simp: prefix_def)
    from open_w_cases[OF f] show ?thesis
    proof
      assume "lookup n p = None \<and> open_w d (lookup n p) = Some (Some (File True d))"
      with at[of r] q show ?thesis
        by (cases r) (auto simp: stat_def lookup_append)
    next
      assume "\<exists>r old. lookup n p = Some (File r old) \<and> open_w d (lookup n p) = Some (Some (File r d))"
      with at[of r] q show ?thesis
        by (cases r) (auto simp: stat_def lookup_append)
    qed
  qed
qed

lemma alter_unlink_stat:
  assumes "alter unlink n p = Some n'"
  shows "stat n' q = (if q = p then None else stat n q)"
proof -
  from alter_Some_f[OF assms] obtain r d where l: "lookup n p = Some (File r d)"
    by (cases "lookup n p" rule: unlink.cases) auto
  note at = alter_lookup_at[OF assms]
  show ?thesis
  proof (cases "prefix p q")
    case False
    with alter_stat_other[OF assms] show ?thesis by auto
  next
    case True
    then obtain s where q: "q = p @ s" by (auto simp: prefix_def)
    with at[of s] l show ?thesis
      by (cases s) (auto simp: stat_def lookup_append)
  qed
qed

lemma alter_rmdir_all_stat:
  assumes "alter rmdir_all n p = Some n'"
  shows "stat n' q = (if prefix p q then None else stat n q)"
proof -
  from alter_Some_f[OF assms] obtain es where l: "lookup n p = Some (Dir es)"
    by (cases "lookup n p" rule: rmdir_all.cases) auto
  note at = alter_lookup_at[OF assms]
  show ?thesis
  proof (cases "prefix p q")
    case False
    with alter_stat_other[OF assms] show ?thesis by auto
  next
    case True
    then obtain s where q: "q = p @ s" by (auto simp: prefix_def)
    with at[of s] l True show ?thesis
      by (auto simp: stat_def)
  qed
qed

lemma lookup_fresh_dirs: "lookup (fresh_dirs cs) cs = Some (Dir [])"
  by (induction cs) auto

lemma makedirs_node_new:
  "makedirs_node n p = Some n' \<Longrightarrow> lookup n p = None \<Longrightarrow> lookup n' p = Some (Dir [])"
proof (induction n p arbitrary: n' rule: makedirs_node.induct)
  case (1 r d p)
  then show ?case by simp
next
  case (2 es)
  then show ?case by simp
next
  case (3 es c cs)
  then show ?case
    by (auto simp: AList.update_conv' lookup_fresh_dirs split: option.splits)
qed

lemma makedirs_node_pre:
  "makedirs_node n p = Some n' \<Longrightarrow> prefix q p \<Longrightarrow> stat n q = None \<or> stat n q = Some KDir"
proof (induction n p arbitrary: n' q rule: makedirs_node.induct)
  case (1 r d p)
  then show ?case by simp
next
  case (2 es)
  then show ?case by auto
next
  case (3 es c cs)
  show ?case
  proof (cases q)
    case Nil
    then show ?thesis by simp
  next
    case (Cons a q')
    with 3(3) have a: "a = c" and pq: "prefix q' cs" by auto
    show ?thesis
    proof (cases "map_of es c")
      case None
      with Cons a show ?thesis by (simp add: stat_Dir_Cons)
    next
      case (Some sub)
      with 3(2) obtain sub' where "makedirs_node sub cs = Some sub'"
        by (auto split: option.splits)
      from 3(1)[OF Some this pq] Some Cons a show ?thesis by (simp add: stat_Dir_Cons)
    qed
  qed
qed

lemma file_at_stat: "file_at fs p = (case stat fs p of Some (KFile r d) \<Rightarrow> Some (r, d) | _ \<Rightarrow> None)"
  by (cases "lookup fs p") (auto simp: file_at_def stat_def split: node.splits)

lemma makedirs_node_file_at:
  assumes "makedirs_node n p = Some n'"
  shows "file_at n' q = file_at n q"
proof (cases "prefix q p")
  case True
  from makedirs_node_pre[OF assms True] makedirs_node_stat[OF assms, of q] True
  show ?thesis by (auto simp: file_at_stat)
next
  case False
  with makedirs_node_stat[OF assms, of q] show ?thesis by (simp add: file_at_stat)
qed

lemma update_fresh_key: "map_of es c = None \<Longrightarrow> AList.update c v es = es @ [(c, v)]"
  by (induction es) (auto split: if_splits)

lemma delete_fresh_key: "map_of es c = None \<Longrightarrow> AList.delete c (es @ [(c, v)]) = es"
  by (induction es) (auto split: if_splits)

lemma map_of_snoc_fresh: "map_of es c = None \<Longrightarrow> map_of (es @ [(c, v)]) c = Some v"
  by (induction es) (auto split: if_splits)

lemma fresh_dirs_recreate:
  "cs \<noteq> [] \<Longrightarrow> \<exists>X. alter rmdir_all (fresh_dirs cs) cs = Some X \<and> makedirs_node X cs = Some (fresh_dirs cs)"
proof (induction cs)
  case Nil
  then show ?case by simp
next
  case (Cons c cs)
  show ?case
  proof (cases cs)
    case Nil
    then show ?thesis by simp
  next
    case (Cons c' cs')
    with Cons.IH obtain X where "alter rmdir_all (fresh_dirs cs) cs = Some X"
      "makedirs_node X cs = Some (fresh_dirs cs)" by auto
    with Cons show ?thesis by simp
  qed
qed

lemma makedirs_node_recreate:
  "makedirs_node n1 p = Some n0 \<Longrightarrow> lookup n1 p = None \<Longrightarrow>
   \<exists>X. alter rmdir_all n0 p = Some X \<and> makedirs_node X p = Some n0"
proof (induction n1 p arbitrary: n0 rule: makedirs_node.induct)
  case (1 r d p)
  then show ?case by simp
next
  case (2 es)
  then show ?case by simp
next
  case (3 es c cs)
  show ?case
  proof (cases "map_of es c")
    case None
    with 3(2) have n0: "n0 = Dir (es @ [(c, fresh_dirs cs)])"
      by (simp add: update_fresh_key)
    show ?thesis
    proof (cases cs)
      case Nil
      with n0 None show ?thesis
        by (simp add: delete_fresh_key update_fresh_key map_of_snoc_fresh del: map_of_append)
    next
      case (Cons c' cs')
      then have "cs \<noteq> []" by simp
      from fresh_dirs_recreate[OF this] obtain X where
        X: "alter rmdir_all (fresh_dirs cs) cs = Some X" "makedirs_node X cs = Some (fresh_dirs cs)"
        by auto
      have u: "AList.update c v (es @ [(c, w)]) = es @ [(c, v)]" for v w
        using None by (induction es) (auto split: if_splits)
      from X n0 None Cons show ?thesis
        by (simp add: u map_of_snoc_fresh del: map_of_append)
    qed
  next
    case (Some sub)
    with 3(2) obtain sub' where s: "makedirs_node sub cs = Some sub'"
      and n0: "n0 = Dir (AList.update c sub' es)" by (auto split: option.splits)
    from 3(3) Some have l: "lookup sub cs = None" by simp
    then obtain c' cs' where cs: "cs = c' # cs'" by (cases cs) auto
    from 3(1)[OF Some s l] obtain X where
      X: "alter rmdir_all sub' cs = Some X" "makedirs_node X cs = Some sub'" by auto
    with n0 cs show ?thesis
      by (simp add: AList.update_conv')
  qed
qed

section \<open>Lemmas on the operations of the program\<close>

lemma valid_token_names [simp]:
  "valid_name OAUTH1_TOKEN_FILENAME" "valid_name OAUTH2_TOKEN_FILENAME"
  "OAUTH1_TOKEN_FILENAME \<noteq> OAUTH2_TOKEN_FILENAME"
  "OAUTH2_TOKEN_FILENAME \<noteq> OAUTH1_TOKEN_FILENAME"
  by (simp_all add: valid_name_def OAUTH1_TOKEN_FILENAME_def OAUTH2_TOKEN_FILENAME_def)

lemma write_file_cases:
  assumes "write_file E s d fs = (fs', r)"
  shows "(fs' = fs \<and> r = Inl OSError)
     \<or> (\<exists>p. resolve E s = Some p \<and> alter (open_w d) fs p = Some fs' \<and> r = Inr ())"
  using assms by (auto simp: write_file_def split: option.splits)

lemma write_file_frame:
  assumes "write_file E s d fs = (fs', r)" "resolve E s \<noteq> Some q"
  shows "stat fs' q = stat fs q"
  using write_file_cases[OF assms(1)] assms(2) by (auto simp: alter_open_w_stat)

lemma stat_KDir_lookup: "stat fs p = Some KDir \<longleftrightarrow> (\<exists>es. lookup fs p = Some (Dir es))"
  by (cases "lookup fs p") (auto simp: stat_def elim: kind_of.elims)

lemma write_file_ok:
  assumes r: "resolve E s = Some (T @ [name])" and T: "stat fs T = Some KDir"
    and n: "stat fs (T @ [name]) \<noteq> Some KDir"
  shows "\<exists>fs'. write_file E s d fs = (fs', Inr ())
     \<and> (\<forall>q. stat fs' q =
          (if q = T @ [name]
           then Some (KFile (case stat fs (T @ [name]) of Some (KFile r c) \<Rightarrow> r | _ \<Rightarrow> True) d)
           else stat fs q))"
proof -
  from T obtain es where es: "lookup fs (butlast (T @ [name])) = Some (Dir es)"
    by (auto simp: stat_KDir_lookup)
  from n have "open_w d (lookup fs (T @ [name])) \<noteq> None"
    by (cases "(d, lookup fs (T @ [name]))" rule: open_w.cases) (auto simp: stat_def)
  with alter_succeeds[of fs "T @ [name]" es "open_w d"] es
  obtain fs' where a: "alter (open_w d) fs (T @ [name]) = Some fs'"
    by auto
  with r have "write_file E s d fs = (fs', Inr ())" by (simp add: write_file_def)
  with alter_open_w_stat[OF a] show ?thesis by auto
qed

lemma store_state_write1:
  assumes "store_state fs T a1 a2" "resolve E t = Some T"
  shows "\<exists>fs'. write_file E (path_join t OAUTH1_TOKEN_FILENAME) d fs = (fs', Inr ())
     \<and> store_state fs' T (Some d) a2"
proof -
  from assms(2) have r: "resolve E (path_join t OAUTH1_TOKEN_FILENAME) = Some (T @ [OAUTH1_TOKEN_FILENAME])"
    by (simp add: resolve_path_join)
  from assms(1) have T: "stat fs T = Some KDir"
    and n: "stat fs (T @ [OAUTH1_TOKEN_FILENAME]) \<noteq> Some KDir"
    by (cases a1; simp add: store_state_def)+
  from write_file_ok[OF r T n, of d] assms(1) show ?thesis
    by (cases a1) (auto simp: store_state_def)
qed

lemma store_state_write2:
  assumes "store_state fs T a1 a2" "resolve E t = Some T"
  shows "\<exists>fs'. write_file E (path_join t OAUTH2_TOKEN_FILENAME) d fs = (fs', Inr ())
     \<and> store_state fs' T a1 (Some d)"
proof -
  from assms(2) have r: "resolve E (path_join t OAUTH2_TOKEN_FILENAME) = Some (T @ [OAUTH2_TOKEN_FILENAME])"
    by (simp add: resolve_path_join)
  from assms(1) have T: "stat fs T = Some KDir"
    and n: "stat fs (T @ [OAUTH2_TOKEN_FILENAME]) \<noteq> Some KDir"
    by (cases a2; simp add: store_state_def)+
  from write_file_ok[OF r T n, of d] assms(1) show ?thesis
    by (cases a2) (auto simp: store_state_def)
qed

lemma write_if_dict1:
  assumes "store_state fs T a1 a2" "resolve E t = Some T"
  shows "\<exists>fs'. write_if_dict E (path_join t OAUTH1_TOKEN_FILENAME) v fs = (fs', Inr ())
     \<and> store_state fs' T (dict_text E v a1) a2"
  using store_state_write1[OF assms] assms(1)
  by (auto simp: write_if_dict_def write_json_def dict_text_def split: option.splits json.splits)

lemma write_if_dict2:
  assumes "store_state fs T a1 a2" "resolve E t = Some T"
  shows "\<exists>fs'. write_if_dict E (path_join t OAUTH2_TOKEN_FILENAME) v fs = (fs', Inr ())
     \<and> store_state fs' T a1 (dict_text E v a2)"
  using store_state_write2[OF assms] assms(1)
  by (auto simp: write_if_dict_def write_json_def dict_text_def split: option.splits json.splits)

lemma write_if_keys1:
  assumes "store_state fs T a1 a2" "resolve E t = Some T"
  shows "\<exists>fs'. write_if_keys E (path_join t OAUTH1_TOKEN_FILENAME) keys payload fs = (fs', Inr ())
     \<and> store_state fs' T (keys_text E keys payload a1) a2"
  using store_state_write1[OF assms] assms(1)
  by (auto simp: write_if_keys_def write_json_def keys_text_def)

lemma write_if_keys2:
  assumes "store_state fs T a1 a2" "resolve E t = Some T"
  shows "\<exists>fs'. write_if_keys E (path_join t OAUTH2_TOKEN_FILENAME) keys payload fs = (fs', Inr ())
     \<and> store_state fs' T a1 (keys_text E keys payload a2)"
  using store_state_write2[OF assms] assms(1)
  by (auto simp: write_if_keys_def write_json_def keys_text_def)

lemma legacy_fallback_object:
  assumes s: "store_state fs T None None" and r: "resolve E t = Some T"
    and j: "json_loads E b = Some (JObject payload)"
  shows "\<exists>fs'. legacy_fallback E b t fs = (fs', Inr ())
     \<and> store_state fs' T
          (keys_text E [''oauth_token'', ''oauth_token_secret''] payload
             (dict_text E (map_of payload ''oauth1_token'') None))
          (keys_text E [''access_token''] payload
             (dict_text E (map_of payload ''oauth2_token'') None))"
proof -
  let ?v1 = "map_of payload ''oauth1_token''" and ?v2 = "map_of payload ''oauth2_token''"
  from write_if_dict1[OF s r, of ?v1] obtain fs1 where
    1: "write_if_dict E (path_join t OAUTH1_TOKEN_FILENAME) ?v1 fs = (fs1, Inr ())"
    and s1: "store_state fs1 T (dict_text E ?v1 None) None" by auto
  from write_if_dict2[OF s1 r, of ?v2] obtain fs2 where
    2: "write_if_dict E (path_join t OAUTH2_TOKEN_FILENAME) ?v2 fs1 = (fs2, Inr ())"
    and s2: "store_state fs2 T (dict_text E ?v1 None) (dict_text E ?v2 None)" by auto
  from write_if_keys1[OF s2 r, of "[''oauth_token'', ''oauth_token_secret'']" payload] obtain fs3 where
    3: "write_if_keys E (path_join t OAUTH1_TOKEN_FILENAME) [''oauth_token'', ''oauth_token_secret''] payload fs2
          = (fs3, Inr ())"
    and s3: "store_state fs3 T (keys_text E [''oauth_token'', ''oauth_token_secret''] payload
        (dict_text E ?v1 None)) (dict_text E ?v2 None)" by auto
  from write_if_keys2[OF s3 r, of "[''access_token'']" payload] obtain fs4 where
    4: "write_if_keys E (path_join t OAUTH2_TOKEN_FILENAME) [''access_token''] payload fs3 = (fs4, Inr ())"
    and s4: "store_state fs4 T (keys_text E [''oauth_token'', ''oauth_token_secret''] payload
        (dict_text E ?v1 None)) (keys_text E [''access_token''] payload (dict_text E ?v2 None))" by auto
  from j 1 2 3 4 have "legacy_fallback E b t fs = (fs4, Inr ())"
    by (simp add: legacy_fallback_def Let_def)
  with s4 show ?thesis by blast
qed

lemma store_state_read:
  assumes "store_state fs T a1 a2" "resolve E t = Some T"
  shows "read_file E fs (path_join t OAUTH1_TOKEN_FILENAME) = a1"
    and "read_file E fs (path_join t OAUTH2_TOKEN_FILENAME) = a2"
    and "token_store_ready E fs t \<longleftrightarrow> a1 \<noteq> None \<and> a2 \<noteq> None"
proof -
  from assms(2) have r: "resolve E (path_join t OAUTH1_TOKEN_FILENAME) = Some (T @ [OAUTH1_TOKEN_FILENAME])"
    "resolve E (path_join t OAUTH2_TOKEN_FILENAME) = Some (T @ [OAUTH2_TOKEN_FILENAME])"
    by (simp_all add: resolve_path_join)
  from assms(1) have 1: "stat fs (T @ [OAUTH1_TOKEN_FILENAME]) = map_option (KFile True) a1"
    and 2: "stat fs (T @ [OAUTH2_TOKEN_FILENAME]) = map_option (KFile True) a2"
    by (simp_all add: store_state_def)
  from 1 show x1: "read_file E fs (path_join t OAUTH1_TOKEN_FILENAME) = a1"
    by (cases a1; cases "lookup fs (T @ [OAUTH1_TOKEN_FILENAME])")
       (auto simp: read_file_def r stat_def elim: kind_of.elims split: node.splits)
  from 2 show x2: "read_file E fs (path_join t OAUTH2_TOKEN_FILENAME) = a2"
    by (cases a2; cases "lookup fs (T @ [OAUTH2_TOKEN_FILENAME])")
       (auto simp: read_file_def r stat_def elim: kind_of.elims split: node.splits)
  have i1: "isfile E fs (path_join t OAUTH1_TOKEN_FILENAME) \<longleftrightarrow> a1 \<noteq> None"
    using 1 by (cases a1; cases "lookup fs (T @ [OAUTH1_TOKEN_FILENAME])")
       (auto simp: isfile_def r stat_def elim: kind_of.elims split: node.splits)
  have i2: "isfile E fs (path_join t OAUTH2_TOKEN_FILENAME) \<longleftrightarrow> a2 \<noteq> None"
    using 2 by (cases a2; cases "lookup fs (T @ [OAUTH2_TOKEN_FILENAME])")
       (auto simp: isfile_def r stat_def elim: kind_of.elims split: node.splits)
  from i1 i2 show "token_store_ready E fs t \<longleftrightarrow> a1 \<noteq> None \<and> a2 \<noteq> None"
    by (simp add: token_store_ready_def)
qed

lemma makedirs_cases:
  assumes "makedirs E s fs = (fs', r)"
  shows "(fs' = fs \<and> r = Inl OSError)
     \<or> (\<exists>p. resolve E s = Some p \<and> makedirs_node fs p = Some fs' \<and> r = Inr ())"
  using assms by (auto simp: makedirs_def split: option.splits)

lemma os_remove_cases:
  assumes "os_remove E s fs = (fs', r)"
  shows "(fs' = fs \<and> r = Inl OSError)
     \<or> (\<exists>p. resolve E s = Some p \<and> alter unlink fs p = Some fs' \<and> r = Inr ())"
  using assms by (auto simp: os_remove_def split: option.splits)

lemma rmtree_cases:
  assumes "rmtree E s fs = (fs', r)"
  shows "(r = Inl OSError \<and> (fs' = fs \<or> resolve E s = Some []))
     \<or> (\<exists>p. resolve E s = Some p \<and> p \<noteq> [] \<and> alter rmdir_all fs p = Some fs' \<and> r = Inr ())"
  using assms by (auto simp: rmtree_def split: option.splits if_splits node.splits)

lemma alter_unlink_gone: "alter unlink n p = Some n' \<Longrightarrow> lookup n' p = None"
  using alter_unlink_stat[of n p n' p] by (simp add: stat_def)

lemma alter_rmdir_all_gone: "alter rmdir_all n p = Some n' \<Longrightarrow> lookup n' p = None"
  using alter_rmdir_all_stat[of n p n' p] by (simp add: stat_def)

lemma clear_prepared:
  assumes "clear_and_prepare_dir E t fs = (fs0, Inr u)"
  shows "\<exists>T. resolve E t = Some T \<and> lookup fs0 T = Some (Dir [])"
proof (cases "isfile E fs t")
  case True
  with assms obtain fs1 u1 where rm: "os_remove E t fs = (fs1, Inr u1)"
    and mk: "makedirs E t fs1 = (fs0, Inr u)"
    by (auto simp: clear_and_prepare_dir_def split: prod.splits sum.splits)
  from os_remove_cases[OF rm] obtain p where p: "resolve E t = Some p" "alter unlink fs p = Some fs1"
    by auto
  from makedirs_cases[OF mk] p have "makedirs_node fs1 p = Some fs0" by auto
  from makedirs_node_new[OF this alter_unlink_gone[OF p(2)]] p show ?thesis by simp
next
  case False
  show ?thesis
  proof (cases "isdir E fs t")
    case True
    with False assms obtain fs1 u1 where rm: "rmtree E t fs = (fs1, Inr u1)"
      and mk: "makedirs E t fs1 = (fs0, Inr u)"
      by (auto simp: clear_and_prepare_dir_def split: prod.splits sum.splits)
    from rmtree_cases[OF rm] obtain p where p: "resolve E t = Some p" "alter rmdir_all fs p = Some fs1"
      by auto
    from makedirs_cases[OF mk] p have "makedirs_node fs1 p = Some fs0" by auto
    from makedirs_node_new[OF this alter_rmdir_all_gone[OF p(2)]] p show ?thesis by simp
  next
    case nd: False
    with False assms have mk: "makedirs E t fs = (fs0, Inr u)"
      by (simp add: clear_and_prepare_dir_def)
    from makedirs_cases[OF mk] obtain p where p: "resolve E t = Some p" "makedirs_node fs p = Some fs0"
      by auto
    from False nd p(1) have "lookup fs p = None"
      by (cases "lookup fs p") (auto simp: isfile_def isdir_def split: node.splits)
    from makedirs_node_new[OF p(2) this] p show ?thesis by simp
  qed
qed

lemma store_state_empty: "lookup fs T = Some (Dir []) \<Longrightarrow> store_state fs T None None"
  by (simp add: store_state_def stat_def lookup_append)

lemma legacy_written:
  assumes z: "zip_open E b = Inl BadZipFile" and j: "json_loads E b = Some (JObject payload)"
    and c: "clear_and_prepare_dir E t fs = (fs0, Inr u)"
  shows "\<exists>fs' T. write_token_store_bytes E b t fs = (fs', Inr t) \<and> resolve E t = Some T
     \<and> store_state fs' T
          (keys_text E [''oauth_token'', ''oauth_token_secret''] payload
             (dict_text E (map_of payload ''oauth1_token'') None))
          (keys_text E [''access_token''] payload
             (dict_text E (map_of payload ''oauth2_token'') None))"
proof -
  from clear_prepared[OF c] obtain T where T: "resolve E t = Some T" "lookup fs0 T = Some (Dir [])"
    by auto
  from legacy_fallback_object[OF store_state_empty[OF T(2)] T(1) j] obtain fs' where
    l: "legacy_fallback E b t fs0 = (fs', Inr ())"
    and s: "store_state fs' T
          (keys_text E [''oauth_token'', ''oauth_token_secret''] payload
             (dict_text E (map_of payload ''oauth1_token'') None))
          (keys_text E [''access_token''] payload
             (dict_text E (map_of payload ''oauth2_token'') None))" by auto
  from z c l have "write_token_store_bytes E b t fs = (fs', Inr t)"
    by (simp add: write_token_store_bytes_def try_extract_def)
  with T(1) s show ?thesis by blast
qed

lemma clear_again:
  assumes "clear_and_prepare_dir E t fs = (fs0, Inr u)"
  shows "clear_and_prepare_dir E t fs0 = (fs0, Inr ())"
proof -
  have "\<exists>fs1 T. resolve E t = Some T \<and> makedirs_node fs1 T = Some fs0 \<and> lookup fs1 T = None"
  proof (cases "isfile E fs t")
    case True
    with assms obtain fs1 u1 where rm: "os_remove E t fs = (fs1, Inr u1)"
      and mk: "makedirs E t fs1 = (fs0, Inr u)"
      by (auto simp: clear_and_prepare_dir_def split: prod.splits sum.splits)
    from os_remove_cases[OF rm] obtain p where p: "resolve E t = Some p" "alter unlink fs p = Some fs1"
      by auto
    from makedirs_cases[OF mk] p have "makedirs_node fs1 p = Some fs0" by auto
    with alter_unlink_gone[OF p(2)] p show ?thesis by blast
  next
    case False
    show ?thesis
    proof (cases "isdir E fs t")
      case True
      with False assms obtain fs1 u1 where rm: "rmtree E t fs = (fs1, Inr u1)"
        and mk: "makedirs E t fs1 = (fs0, Inr u)"
        by (auto simp: clear_and_prepare_dir_def split: prod.splits sum.splits)
      from rmtree_cases[OF rm] obtain p where p: "resolve E t = Some p" "alter rmdir_all fs p = Some fs1"
        by auto
      from makedirs_cases[OF mk] p have "makedirs_node fs1 p = Some fs0" by auto
      with alter_rmdir_all_gone[OF p(2)] p show ?thesis by blast
    next
      case nd: False
      with False assms have mk: "makedirs E t fs = (fs0, Inr u)"
        by (simp add: clear_and_prepare_dir_def)
      from makedirs_cases[OF mk] obtain p where p: "resolve E t = Some p" "makedirs_node fs p = Some fs0"
        by auto
      from False nd p(1) have "lookup fs p = None"
        by (cases "lookup fs p") (auto simp: isfile_def isdir_def split: node.splits)
      with p show ?thesis by blast
    qed
  qed
  then obtain fs1 T where T: "resolve E t = Some T" and mk: "makedirs_node fs1 T = Some fs0"
    and l: "lookup fs1 T = None" by blast
  from l have nT: "T \<noteq> []" by auto
  from makedirs_node_new[OF mk l] have d: "lookup fs0 T = Some (Dir [])" .
  from makedirs_node_recreate[OF mk l] obtain X where
    X: "alter rmdir_all fs0 T = Some X" "makedirs_node X T = Some fs0" by auto
  from T d have "\<not> isfile E fs0 t" "isdir E fs0 t" by (simp_all add: isfile_def isdir_def)
  with T nT X show ?thesis
    by (simp add: clear_and_prepare_dir_def rmtree_def makedirs_def)
qed

lemma write_after_clear:
  assumes "clear_and_prepare_dir E t fs = (fs0, Inr u)"
  shows "write_token_store_bytes E b t fs = write_token_store_bytes E b t fs0"
  using assms clear_again[OF assms] by (simp add: write_token_store_bytes_def)

lemma write_returns_target:
  "write_token_store_bytes E b t fs = (fs', Inr v) \<Longrightarrow> v = t"
  by (auto simp: write_token_store_bytes_def split: prod.splits sum.splits if_splits)

lemma store_state_not_ready:
  assumes "lookup fs T = Some (Dir [])" "resolve E t = Some T"
  shows "\<not> token_store_ready E fs t"
  using store_state_read(3)[OF store_state_empty[OF assms(1)] assms(2)] by simp

lemma copy_member_intact:
  "member_intact m \<Longrightarrow> copy_member E m d fs = (fs', Inl e) \<Longrightarrow> e \<noteq> BadZipFile"
  by (auto simp: copy_member_def member_intact_def write_file_def
      split: zcontent.splits option.splits prod.splits sum.splits)

lemma extract_member_intact:
  "member_intact m \<Longrightarrow> extract_member E ta m fs = (fs', Inl e) \<Longrightarrow> e \<noteq> BadZipFile"
  by (auto simp: extract_member_def Let_def unsafe_entry_def makedirs_def
      split: if_splits option.splits prod.splits sum.splits dest: copy_member_intact)

lemma extract_members_intact:
  "list_all member_intact ms \<Longrightarrow> extract_members E ta ms fs = (fs', Inl e) \<Longrightarrow> e \<noteq> BadZipFile"
proof (induction ms arbitrary: fs)
  case Nil
  then show ?case by simp
next
  case (Cons m ms)
  then show ?case
    by (auto split: prod.splits sum.splits dest: extract_member_intact)
qed

lemma write_if_dict_frame:
  assumes "write_if_dict E s v fs = (fs', r)" "resolve E s \<noteq> Some q"
  shows "stat fs' q = stat fs q"
  using assms write_file_frame[of E s _ fs fs' r q]
  by (auto simp: write_if_dict_def write_json_def split: option.splits json.splits)

lemma hydrate_frame:
  assumes h: "hydrate_token_store_from_legacy_file E path directory fs = (fs', r)"
    and 1: "resolve E (path_join directory OAUTH1_TOKEN_FILENAME) \<noteq> Some q"
    and 2: "resolve E (path_join directory OAUTH2_TOKEN_FILENAME) \<noteq> Some q"
  shows "stat fs' q = stat fs q"
proof (cases "isfile E fs path")
  case False
  with h show ?thesis by (simp add: hydrate_token_store_from_legacy_file_def)
next
  case True
  show ?thesis
  proof (cases "load_json_file E fs path")
    case None
    with h True show ?thesis by (simp add: hydrate_token_store_from_legacy_file_def)
  next
    case (Some v)
    show ?thesis
    proof (cases "\<exists>payload. v = JObject payload")
      case False
      with h True Some show ?thesis
        by (cases v) (simp_all add: hydrate_token_store_from_legacy_file_def)
    next
      case t: True
      then obtain payload where v: "v = JObject payload" by auto
      obtain fs1 r1 where w1: "write_if_dict E (path_join directory OAUTH1_TOKEN_FILENAME)
          (map_of payload ''oauth1_token'') fs = (fs1, r1)" by (cases "write_if_dict E (path_join directory OAUTH1_TOKEN_FILENAME)
          (map_of payload ''oauth1_token'') fs")
      from write_if_dict_frame[OF w1 1] have s1: "stat fs1 q = stat fs q" .
      show ?thesis
      proof (cases r1)
        case (Inl e)
        with h True Some v w1 have "fs' = fs1"
          by (simp add: hydrate_token_store_from_legacy_file_def Let_def)
        with s1 show ?thesis by simp
      next
        case (Inr u)
        with h True Some v w1 have "write_if_dict E (path_join directory OAUTH2_TOKEN_FILENAME)
          (map_of payload ''oauth2_token'') fs1 = (fs', r)"
          by (simp add: hydrate_token_store_from_legacy_file_def Let_def)
        from write_if_dict_frame[OF this 2] s1 show ?thesis by simp
      qed
    qed
  qed
qed

lemma read_file_stat:
  "read_file E fs s = (case resolve E s of None \<Rightarrow> None
     | Some p \<Rightarrow> (case stat fs p of Some (KFile True d) \<Rightarrow> Some d | _ \<Rightarrow> None))"
  by (auto simp: read_file_def stat_def split: option.splits node.splits bool.splits)

lemma not_escapes_empty: "\<not> escapes E (abspath E t) []"
  by (simp add: escapes_def abspath_join_empty)

lemma rejected_name_not_empty: "rejected E (abspath E t) m \<Longrightarrow> zname m \<noteq> []"
  by (auto simp: rejected_def unsafe_name_def normalize_name_def not_escapes_empty)

lemma extract_member_rejected:
  assumes "rejected E (abspath E t) m"
  shows "extract_member E (abspath E t) m fs = (fs, Inl (unsafe_entry (zname m)))"
  using assms rejected_name_not_empty[OF assms]
  by (auto simp: extract_member_def rejected_def unsafe_name_def escapes_def Let_def)

lemma extract_members_append:
  "extract_members E ta (pre @ rest) fs =
     (case extract_members E ta pre fs of
        (fs1, Inl e) \<Rightarrow> (fs1, Inl e)
      | (fs1, Inr u) \<Rightarrow> extract_members E ta rest fs1)"
  by (induction pre arbitrary: fs) (auto split: prod.splits sum.splits)

lemma makedirs_file_at: "makedirs E s fs = (fs', r) \<Longrightarrow> file_at fs' q = file_at fs q"
  using makedirs_cases[of E s fs fs' r] by (auto simp: makedirs_node_file_at)

lemma write_file_file_at:
  assumes "write_file E s d fs = (fs', r)" "resolve E s \<noteq> Some q"
  shows "file_at fs' q = file_at fs q"
  using write_file_frame[OF assms] by (simp add: file_at_stat)

lemma copy_member_file_at:
  assumes "copy_member E m s fs = (fs', r)" "resolve E s \<noteq> Some q"
  shows "file_at fs' q = file_at fs q"
  using assms write_file_file_at[of E s _ fs _ _ q]
  by (auto simp: copy_member_def split: zcontent.splits prod.splits sum.splits)

lemma extract_member_file_at:
  assumes x: "extract_member E (abspath E t) m fs = (fs', r)"
    and q: "\<not> prefix (path_comps (abspath E t)) q"
  shows "file_at fs' q = file_at fs q"
proof (cases "zname m = [] \<or> rejected E (abspath E t) m")
  case True
  with x extract_member_rejected[of E t m fs] show ?thesis
    by (auto simp: extract_member_def)
next
  case False
  let ?d = "abspath E (path_join (abspath E t) (normalize_name (zname m)))"
  from False have safe: "?d = abspath E t \<or> prefix (abspath E t @ ''/'') ?d"
    by (auto simp: rejected_def escapes_def Let_def)
  then have "prefix (path_comps (abspath E t)) (path_comps ?d)"
    by (auto dest: prefix_path_comps)
  with q have nq: "resolve E ?d \<noteq> Some q"
    by (auto simp: resolve_abspath)
  show ?thesis
  proof (cases "is_dir m")
    case True
    with x False have "makedirs E ?d fs = (fs', r)"
      by (auto simp: extract_member_def rejected_def unsafe_name_def escapes_def Let_def)
    then show ?thesis by (rule makedirs_file_at)
  next
    case nd: False
    obtain fs1 r1 where mk: "makedirs E (dirname ?d) fs = (fs1, r1)"
      by (cases "makedirs E (dirname ?d) fs")
    from makedirs_file_at[OF mk] have 1: "file_at fs1 q = file_at fs q" .
    show ?thesis
    proof (cases r1)
      case (Inl e)
      with x False nd mk have "fs' = fs1"
        by (auto simp: extract_member_def rejected_def unsafe_name_def escapes_def Let_def)
      with 1 show ?thesis by simp
    next
      case (Inr u)
      with x False nd mk have "copy_member E m ?d fs1 = (fs', r)"
        by (auto simp: extract_member_def rejected_def unsafe_name_def escapes_def Let_def)
      from copy_member_file_at[OF this nq] 1 show ?thesis by simp
    qed
  qed
qed

lemma extract_members_file_at:
  assumes "extract_members E (abspath E t) ms fs = (fs', r)"
    and "\<not> prefix (path_comps (abspath E t)) q"
  shows "file_at fs' q = file_at fs q"
  using assms
proof (induction ms arbitrary: fs)
  case Nil
  then show ?case by simp
next
  case (Cons m ms)
  obtain fs1 r1 where 1: "extract_member E (abspath E t) m fs = (fs1, r1)"
    by (cases "extract_member E (abspath E t) m fs")
  from extract_member_file_at[OF 1 Cons.prems(2)] have f: "file_at fs1 q = file_at fs q" .
  show ?case
  proof (cases r1)
    case (Inl e)
    with Cons.prems(1) 1 f show ?thesis by simp
  next
    case (Inr u)
    with Cons.prems(1) 1 have "extract_members E (abspath E t) ms fs1 = (fs', r)" by simp
    from Cons.IH[OF this Cons.prems(2)] f show ?thesis by simp
  qed
qed

lemma clear_file_at:
  assumes c: "clear_and_prepare_dir E t fs = (fs0, r)"
    and q: "\<not> prefix (path_comps (abspath E t)) q"
  shows "file_at fs0 q = file_at fs q"
proof (cases "t = []")
  case True
  with c show ?thesis
    by (auto simp: clear_and_prepare_dir_def isfile_def isdir_def makedirs_def resolve_def)
next
  case False
  note T = resolve_some[OF False, of E]
  have rm: "file_at fs1 q = file_at fs q" if "os_remove E t fs = (fs1, r1)" for fs1 r1
    using os_remove_cases[OF that] T q by (auto simp: file_at_stat alter_unlink_stat)
  have rt: "file_at fs1 q = file_at fs q" if "rmtree E t fs = (fs1, r1)" for fs1 r1
    using rmtree_cases[OF that] T q by (auto simp: file_at_stat alter_rmdir_all_stat)
  show ?thesis
  proof (cases "isfile E fs t")
    case True
    obtain fs1 r1 where 1: "os_remove E t fs = (fs1, r1)" by (cases "os_remove E t fs")
    with c True rm[OF 1] makedirs_file_at[of E t fs1 fs0 r q] show ?thesis
      by (cases r1) (auto simp: clear_and_prepare_dir_def)
  next
    case nf: False
    show ?thesis
    proof (cases "isdir E fs t")
      case True
      obtain fs1 r1 where 1: "rmtree E t fs = (fs1, r1)" by (cases "rmtree E t fs")
      with c nf True rt[OF 1] makedirs_file_at[of E t fs1 fs0 r q] show ?thesis
        by (cases r1) (auto simp: clear_and_prepare_dir_def)
    next
      case False
      with c nf makedirs_file_at[of E t fs fs0 r q] show ?thesis
        by (auto simp: clear_and_prepare_dir_def)
    qed
  qed
qed

lemma write_if_dict_file_at:
  assumes "write_if_dict E s v fs = (fs', r)" "resolve E s \<noteq> Some q"
  shows "file_at fs' q = file_at fs q"
  using write_if_dict_frame[OF assms] by (simp add: file_at_stat)

lemma write_if_keys_file_at:
  assumes "write_if_keys E s keys payload fs = (fs', r)" "resolve E s \<noteq> Some q"
  shows "file_at fs' q = file_at fs q"
  using assms write_file_file_at[of E s _ fs fs' r q]
  by (auto simp: write_if_keys_def write_json_def split: if_splits)

lemma legacy_fallback_file_at:
  assumes l: "legacy_fallback E b t fs = (fs', r)"
    and 1: "resolve E (path_join t OAUTH1_TOKEN_FILENAME) \<noteq> Some q"
    and 2: "resolve E (path_join t OAUTH2_TOKEN_FILENAME) \<noteq> Some q"
  shows "file_at fs' q = file_at fs q"
proof (cases "\<exists>payload. json_loads E b = Some (JObject payload)")
  case False
  with l show ?thesis
    by (auto simp: legacy_fallback_def split: option.splits json.splits)
next
  case True
  then obtain payload where j: "json_loads E b = Some (JObject payload)" by auto
  let ?p1 = "path_join t OAUTH1_TOKEN_FILENAME" and ?p2 = "path_join t OAUTH2_TOKEN_FILENAME"
  obtain fs1 r1 where w1: "write_if_dict E ?p1 (map_of payload ''oauth1_token'') fs = (fs1, r1)"
    by (cases "write_if_dict E ?p1 (map_of payload ''oauth1_token'') fs")
  obtain fs2 r2 where w2: "write_if_dict E ?p2 (map_of payload ''oauth2_token'') fs1 = (fs2, r2)"
    by (cases "write_if_dict E ?p2 (map_of payload ''oauth2_token'') fs1")
  obtain fs3 r3 where w3: "write_if_keys E ?p1 [''oauth_token'', ''oauth_token_secret''] payload fs2 = (fs3, r3)"
    by (cases "write_if_keys E ?p1 [''oauth_token'', ''oauth_token_secret''] payload fs2")
  obtain fs4 r4 where w4: "write_if_keys E ?p2 [''access_token''] payload fs3 = (fs4, r4)"
    by (cases "write_if_keys E ?p2 [''access_token''] payload fs3")
  note f1 = write_if_dict_file_at[OF w1 1] and f2 = write_if_dict_file_at[OF w2 2]
    and f3 = write_if_keys_file_at[OF w3 1] and f4 = write_if_keys_file_at[OF w4 2]
  from l j w1 w2 w3 w4 have "fs' = fs1 \<or> fs' = fs2 \<or> fs' = fs3 \<or> fs' = fs4"
    by (auto simp: legacy_fallback_def Let_def split: sum.splits)
  with f1 f2 f3 f4 show ?thesis by auto
qed

lemma try_extract_file_at:
  assumes "try_extract E b t fs = (fs', r)" "\<not> prefix (path_comps (abspath E t)) q"
  shows "file_at fs' q = file_at fs q"
proof (cases "zip_open E b")
  case (Inl e)
  with assms(1) show ?thesis by (auto simp: try_extract_def split: if_splits)
next
  case (Inr archive)
  obtain fs1 r1 where x: "extract_members E (abspath E t) archive fs = (fs1, r1)"
    by (cases "extract_members E (abspath E t) archive fs")
  from Inr x assms(1) have "fs' = fs1"
    by (auto simp: try_extract_def safe_extract_zip_def split: sum.splits if_splits)
  with extract_members_file_at[OF x assms(2)] show ?thesis by simp
qed

lemma write_file_at:
  assumes w: "write_token_store_bytes E b t fs = (fs', r)"
    and q: "\<not> prefix (path_comps (abspath E t)) q"
  shows "file_at fs' q = file_at fs q"
proof -
  obtain fs0 r0 where c: "clear_and_prepare_dir E t fs = (fs0, r0)"
    by (cases "clear_and_prepare_dir E t fs")
  note f0 = clear_file_at[OF c q]
  show ?thesis
  proof (cases r0)
    case (Inl e)
    with w c f0 show ?thesis by (simp add: write_token_store_bytes_def)
  next
    case (Inr u)
    from clear_prepared[OF c[unfolded Inr]] obtain T where T: "resolve E t = Some T" by auto
    then have T': "T = path_comps (abspath E t)" by (auto simp: resolve_def split: if_splits)
    obtain fs1 r1 where x: "try_extract E b t fs0 = (fs1, r1)" by (cases "try_extract E b t fs0")
    note f1 = try_extract_file_at[OF x q]
    obtain fs2 r2 where l: "legacy_fallback E b t fs1 = (fs2, r2)" by (cases "legacy_fallback E b t fs1")
    from q T' have "resolve E (path_join t OAUTH1_TOKEN_FILENAME) \<noteq> Some q"
      "resolve E (path_join t OAUTH2_TOKEN_FILENAME) \<noteq> Some q"
      by (auto simp: resolve_path_join[OF _ T])
    note f2 = legacy_fallback_file_at[OF l this]
    from w c Inr x l have "fs' = fs1 \<or> fs' = fs2"
      by (auto simp: write_token_store_bytes_def split: sum.splits if_splits)
    with f0 f1 f2 show ?thesis by auto
  qed
qed

lemma length_le_bytes [simp]: "length (le_bytes k n) = k"
  by (induction k arbitrary: n) auto

lemma length_end_record: "length (end_record n s off) = 22"
  by (simp add: end_record_def)

lemma length_archive_bytes:
  "length (archive_bytes E members) =
     length (concat (map (zip_local E) members)) + length (central_directory E 0 members) + 22"
  by (simp add: archive_bytes_def Let_def length_end_record del: length_concat)

lemma archive_bytes_not_empty: "archive_bytes E members \<noteq> []"
  using length_archive_bytes[of E members] by auto

lemma archive_bytes_Nil: "archive_bytes E [] = end_record 0 0 0"
  by (simp add: archive_bytes_def)

lemma char_of_0: "char_of (0::nat) = CHR 0x00"
  by (simp add: char_of_def)

lemma le_bytes_2: "le_bytes 2 n = [char_of n, char_of (n div 256)]"
  by (simp add: numeral_2_eq_2)

lemma le_bytes_4:
  "le_bytes 4 n = [char_of n, char_of (n div 256), char_of (n div 256 div 256),
     char_of (n div 256 div 256 div 256)]"
proof -
  have "(4::nat) = Suc 3" by simp
  then have "le_bytes 4 n = le_bytes (Suc (Suc (Suc (Suc 0)))) n"
    by (simp only: numeral_3_eq_3)
  then show ?thesis by simp
qed

lemma end_record_empty:
  "end_record 0 0 0 = [CHR ''P'', CHR ''K'', CHR 0x05, CHR 0x06,
     CHR 0x00, CHR 0x00, CHR 0x00, CHR 0x00, CHR 0x00, CHR 0x00, CHR 0x00, CHR 0x00, CHR 0x00,
     CHR 0x00, CHR 0x00, CHR 0x00, CHR 0x00, CHR 0x00, CHR 0x00, CHR 0x00, CHR 0x00, CHR 0x00]"
  by (simp add: end_record_def le_bytes_2 le_bytes_4 char_of_0)

lemma archive_write_not_runtime: "archive_write E fs p a \<noteq> Inl (RuntimeError s)"
  by (auto simp: archive_write_def file_header_def Let_def split: option.splits node.splits)

lemma relpath_not_runtime: "relpath E p s \<noteq> Inl (RuntimeError m)"
  by (auto simp: relpath_def Let_def)

lemma add_files_not_runtime: "add_files E fs d root files \<noteq> Inl (RuntimeError s)"
proof (induction files)
  case Nil
  then show ?case by simp
next
  case (Cons f files)
  then show ?case
    using archive_write_not_runtime[of E fs "path_join root f" _ s] relpath_not_runtime[of E "path_join root f" d s]
    by (auto simp: Let_def split: sum.splits)
qed

lemma add_walk_not_runtime: "add_walk E fs d w \<noteq> Inl (RuntimeError s)"
proof (induction w)
  case Nil
  then show ?case by simp
next
  case (Cons a w)
  obtain root dirs files where "a = (root, dirs, files)" by (cases a)
  with Cons add_files_not_runtime[of E fs d root "sort files" s] show ?case
    by (auto split: sum.splits)
qed

subsection \<open>The encoder and the order of the listing\<close>

lemma well_formed_entries_iff:
  "well_formed_entries es \<longleftrightarrow> (\<forall>(name, n) \<in> set es. valid_name name \<and> well_formed n)"
  by (induction es) auto

lemma walk_dirs_eq: "[name. (name, Dir sub) \<leftarrow> es] = map fst (subdirs es)"
proof (induction es)
  case Nil
  then show ?case by (simp add: subdirs_def)
next
  case (Cons e es)
  obtain name n where "e = (name, n)" by (cases e)
  with Cons show ?case by (cases n) (auto simp: subdirs_def)
qed

lemma walk_files_eq: "[name. (name, File r d) \<leftarrow> es] = map fst (plain_files es)"
proof (induction es)
  case Nil
  then show ?case by (simp add: plain_files_def)
next
  case (Cons e es)
  obtain name n where "e = (name, n)" by (cases e)
  with Cons show ?case by (cases n) (auto simp: plain_files_def)
qed

lemma walk_entries_eq:
  "walk_entries t es = concat (map (\<lambda>e. walk (path_join t (fst e)) (snd e)) (subdirs es))"
proof (induction es)
  case Nil
  then show ?case by (simp add: subdirs_def)
next
  case (Cons e es)
  obtain name n where "e = (name, n)" by (cases e)
  with Cons show ?case by (cases n) (auto simp: subdirs_def)
qed

lemma walk_Dir:
  "walk t (Dir es) = (t, map fst (subdirs es), map fst (plain_files es))
     # concat (map (\<lambda>e. walk (path_join t (fst e)) (snd e)) (subdirs es))"
  by (simp add: walk_dirs_eq walk_files_eq walk_entries_eq)

lemma list_all2_concatI:
  "list_all2 (list_all2 P) xss yss \<Longrightarrow> list_all2 P (concat xss) (concat yss)"
  by (induction xss yss rule: list_all2_induct) (auto intro: list_all2_appendI)

lemma same_but_file_order_walk:
  "same_but_file_order n n' \<Longrightarrow> list_all2 walk_rel (walk t n) (walk t n')"
proof (induction arbitrary: t rule: same_but_file_order.induct)
  case (sf_File r d)
  then show ?case by simp
next
  case (sf_Dir es es')
  have head: "walk_rel (t, map fst (subdirs es), map fst (plain_files es))
      (t, map fst (subdirs es'), map fst (plain_files es'))"
  proof -
    from sf_Dir have "image_mset fst (mset (plain_files es)) = image_mset fst (mset (plain_files es'))"
      by simp
    with sf_Dir show ?thesis by (simp add: walk_rel_def)
  qed
  have "list_all2 (\<lambda>e e'. fst e = fst e' \<and> (\<forall>t. list_all2 walk_rel (walk t (snd e)) (walk t (snd e'))))
      (subdirs es) (subdirs es')"
    using sf_Dir
    by (auto simp: list_all2_conv_all_nth dest: map_eq_imp_length_eq)
       (metis length_map nth_map)
  then have "list_all2 (list_all2 walk_rel)
      (map (\<lambda>e. walk (path_join t (fst e)) (snd e)) (subdirs es))
      (map (\<lambda>e. walk (path_join t (fst e)) (snd e)) (subdirs es'))"
    by (auto simp: list_all2_conv_all_nth)
  from list_all2_concatI[OF this] head show ?case
    unfolding walk_Dir by simp
qed

lemma set_entries_split: "set es = set (subdirs es) \<union> set (plain_files es)"
  by (auto simp: subdirs_def plain_files_def)

lemma same_but_file_order_File [simp]:
  "same_but_file_order (File r d) n' \<longleftrightarrow> n' = File r d"
  by (auto elim: same_but_file_order.cases intro: sf_File)

lemma same_but_file_order_Dir:
  "same_but_file_order (Dir es) n' \<longleftrightarrow>
     (\<exists>es'. n' = Dir es' \<and> map fst (subdirs es) = map fst (subdirs es')
        \<and> list_all2 same_but_file_order (map snd (subdirs es)) (map snd (subdirs es'))
        \<and> mset (plain_files es) = mset (plain_files es'))"
  by (auto elim: same_but_file_order.cases intro: sf_Dir)

lemma well_formed_entry:
  "well_formed (Dir es) \<Longrightarrow> (c, n) \<in> set es \<Longrightarrow> well_formed n \<and> valid_name c"
  by (auto simp: well_formed_entries_iff)

lemma entries_agree:
  assumes R: "map fst (subdirs es) = map fst (subdirs es')"
    "list_all2 same_but_file_order (map snd (subdirs es)) (map snd (subdirs es'))"
    "mset (plain_files es) = mset (plain_files es')"
    and wf: "well_formed (Dir es)" "well_formed (Dir es')"
  shows "rel_option same_wf (map_of es c) (map_of es' c)"
proof -
  from R(3) have files: "set (plain_files es) = set (plain_files es')" by (rule mset_eq_setD)
  from R(1) have len: "length (subdirs es) = length (subdirs es')" by (rule map_eq_imp_length_eq)
  from wf have d: "distinct (map fst es)" "distinct (map fst es')" by simp_all
  have names: "fst ` set es = fst ` set es'"
  proof -
    have "fst ` set (subdirs es) = fst ` set (subdirs es')"
      using arg_cong[OF R(1), of set] by simp
    with files show ?thesis by (simp add: set_entries_split[of es] set_entries_split[of es'] image_Un)
  qed
  show ?thesis
  proof (cases "map_of es c")
    case None
    then have "c \<notin> fst ` set es" by (simp add: map_of_eq_None_iff)
    with names have "map_of es' c = None" by (simp add: map_of_eq_None_iff)
    with None show ?thesis by simp
  next
    case (Some n)
    then have mem: "(c, n) \<in> set es" by (rule map_of_SomeD)
    show ?thesis
    proof (cases "is_directory n")
      case False
      with mem have "(c, n) \<in> set (plain_files es)" by (simp add: plain_files_def)
      with files have "(c, n) \<in> set es'" by (simp add: plain_files_def)
      with d(2) have "map_of es' c = Some n" by simp
      moreover from False obtain r x where "n = File r x" by (cases n) auto
      ultimately show ?thesis using Some by (simp add: same_wf_def)
    next
      case True
      with mem have "(c, n) \<in> set (subdirs es)" by (simp add: subdirs_def)
      then obtain i where i: "i < length (subdirs es)" "subdirs es ! i = (c, n)"
        by (auto simp: in_set_conv_nth)
      obtain c' n' where e': "subdirs es' ! i = (c', n')" by (cases "subdirs es' ! i")
      from R(1) i len e' have "c' = c"
        by (metis fst_conv nth_map)
      from R(2) i len e' have sn: "same_but_file_order n n'"
        by (auto simp: list_all2_conv_all_nth)
      from i len e' have "(c', n') \<in> set (subdirs es')"
        by (metis nth_mem)
      then have mem': "(c', n') \<in> set es'" by (simp add: subdirs_def)
      with d(2) \<open>c' = c\<close> have "map_of es' c = Some n'" by simp
      with Some sn well_formed_entry[OF wf(1) mem] well_formed_entry[OF wf(2) mem'] show ?thesis
        by (simp add: same_wf_def)
    qed
  qed
qed

lemma lookup_agree:
  "same_wf n n' \<Longrightarrow> rel_option same_wf (lookup n p) (lookup n' p)"
proof (induction p arbitrary: n n')
  case Nil
  then show ?case by simp
next
  case (Cons c cs)
  show ?case
  proof (cases n)
    case (File r d)
    with Cons.prems show ?thesis by (simp add: same_wf_def)
  next
    case (Dir es)
    with Cons.prems obtain es' where n': "n' = Dir es'"
      and R: "map fst (subdirs es) = map fst (subdirs es')"
        "list_all2 same_but_file_order (map snd (subdirs es)) (map snd (subdirs es'))"
        "mset (plain_files es) = mset (plain_files es')"
      by (auto simp: same_wf_def same_but_file_order_Dir)
    from Cons.prems Dir n' have wf: "well_formed (Dir es)" "well_formed (Dir es')"
      by (simp_all add: same_wf_def)
    from entries_agree[OF R wf, of c] show ?thesis
    proof (cases rule: option.rel_cases)
      case None
      with Dir n' show ?thesis by simp
    next
      case (Some m m')
      with Cons.IH[of m m'] Dir n' show ?thesis by simp
    qed
  qed
qed

lemma archive_write_agree:
  assumes "same_wf fs fs'"
  shows "archive_write E fs p a = archive_write E fs' p a"
proof (cases "resolve E p")
  case None
  then show ?thesis by (simp add: archive_write_def)
next
  case (Some q)
  from lookup_agree[OF assms, of q] show ?thesis
  proof (cases rule: option.rel_cases)
    case None
    with Some show ?thesis by (simp add: archive_write_def)
  next
    case (Some m m')
    with \<open>resolve E p = Some q\<close> show ?thesis
      by (cases m) (auto simp: archive_write_def Let_def same_wf_def same_but_file_order_Dir)
  qed
qed

lemma add_files_agree:
  assumes "\<And>p a. archive_write E fs p a = archive_write E fs' p a"
  shows "add_files E fs d root fl = add_files E fs' d root fl"
  by (induction fl) (simp_all add: assms Let_def split: sum.splits)

lemma sort_mset_eq: "mset xs = mset ys \<Longrightarrow> sort xs = sort (ys :: string list)"
  by (rule properties_for_sort) simp_all

lemma add_walk_agree:
  assumes aw: "\<And>p a. archive_write E fs p a = archive_write E fs' p a"
    and w: "list_all2 walk_rel w w'"
  shows "add_walk E fs d w = add_walk E fs' d w'"
  using w
proof (induction w w' rule: list_all2_induct)
  case Nil
  then show ?case by simp
next
  case (Cons x xs y ys)
  obtain root dirs files where x: "x = (root, dirs, files)" by (cases x)
  obtain root' dirs' files' where y: "y = (root', dirs', files')" by (cases y)
  from Cons(1) x y have "root = root'" "sort files = sort files'"
    by (auto simp: walk_rel_def intro: sort_mset_eq)
  with Cons(3) x y add_files_agree[OF aw, of d root' "sort files'"] show ?case
    by (simp split: sum.splits)
qed

lemma os_walk_agree:
  assumes "same_wf fs fs'"
  shows "list_all2 walk_rel (os_walk E fs d) (os_walk E fs' d)"
proof (cases "resolve E d")
  case None
  then show ?thesis by (simp add: os_walk_def)
next
  case (Some q)
  from lookup_agree[OF assms, of q] show ?thesis
  proof (cases rule: option.rel_cases)
    case None
    with Some show ?thesis by (simp add: os_walk_def)
  next
    case (Some m m')
    with \<open>resolve E d = Some q\<close> same_but_file_order_walk[of m m' d] show ?thesis
      by (simp add: os_walk_def same_wf_def)
  qed
qed

section \<open>Evaluation in the sample environment\<close>

lemma getcwd_base_env: "getcwd base_env = ''/work''"
  by (simp add: getcwd_def base_env_def)

lemmas path_eval = resolve_def abspath_def path_join_def normpath_def initial_slashes_def
  norm_step_def path_comps_def suffix_to_prefix getcwd_base_env

lemma resolve_store: "resolve base_env ''store'' = Some [''work'', ''store'']"
  by (simp add: path_eval)

lemma clear_empty_work:
  "clear_and_prepare_dir base_env ''store'' empty_work = (prepared_work, Inr ())"
  by (simp add: clear_and_prepare_dir_def isfile_def isdir_def makedirs_def resolve_store
      empty_work_def prepared_work_def)

lemmas text_defs = oauth1_text_def oauth2_text_def legacy_text_def flat_text_def mixed_text_def

lemmas obj_defs = oauth1_obj_def oauth2_obj_def legacy_obj_def flat_obj_def mixed_obj_def

lemma json_loads_base_env:
  "json_loads base_env oauth1_text = Some oauth1_obj"
  "json_loads base_env oauth2_text = Some oauth2_obj"
  "json_loads base_env legacy_text = Some legacy_obj"
  "json_loads base_env flat_text = Some flat_obj"
  "json_loads base_env mixed_text = Some mixed_obj"
  "json_loads base_env ''[1]'' = Some (JArray [JNumber ''1''])"
  "json_loads base_env ''{not json'' = None"
  by (simp_all add: base_env_def json_table_def text_defs)

lemma json_dumps_base_env:
  "json_dumps base_env oauth1_obj = oauth1_text"
  "json_dumps base_env oauth2_obj = oauth2_text"
  "json_dumps base_env legacy_obj = legacy_text"
  "json_dumps base_env flat_obj = flat_text"
  "json_dumps base_env mixed_obj = mixed_text"
  by (simp_all add: base_env_def sample_dumps_def json_table_def obj_defs)

lemma zip_open_base_env: "zip_open base_env b = Inl BadZipFile"
  by (simp add: base_env_def)

lemma resolve_base_env:
  "resolve base_env ''missing.json'' = Some [''work'', ''missing.json'']"
  "resolve base_env ''list.json'' = Some [''work'', ''list.json'']"
  "resolve base_env ''broken.json'' = Some [''work'', ''broken.json'']"
  "resolve base_env ''secret.json'' = Some [''work'', ''secret.json'']"
  "resolve base_env ''store/oauth1_token.json'' = Some [''work'', ''store'', ''oauth1_token.json'']"
  "resolve base_env ''store/oauth2_token.json'' = Some [''work'', ''store'', ''oauth2_token.json'']"
  by (simp_all add: path_eval)

lemma zip_env_fields [simp]:
  "cwd (zip_env a) = cwd base_env" "json_loads (zip_env a) = json_loads base_env"
  "json_dumps (zip_env a) = json_dumps base_env"
  "zip_local (zip_env a) = zip_local base_env" "zip_central (zip_env a) = zip_central base_env"
  "b64encode (zip_env a) = b64encode base_env" "b64decode (zip_env a) = b64decode base_env"
  "zip_open (zip_env a) (zipfile_bytes base_env a) = Inr a"
  by (simp_all add: zip_env_def)

lemma getcwd_zip_env [simp]: "getcwd (zip_env a) = getcwd base_env"
  by (simp add: getcwd_def)

lemma abspath_zip_env [simp]: "abspath (zip_env a) = abspath base_env"
  by (rule ext) (simp add: abspath_def)

lemma resolve_zip_env [simp]: "resolve (zip_env a) = resolve base_env"
  by (rule ext) (simp add: resolve_def)

lemma clear_used_store:
  "clear_and_prepare_dir base_env ''store'' used_store
     = (Dir [(''work'', Dir [(''plain'', File True ''x''), (''store'', Dir [])])], Inr ())"
  by (simp add: clear_and_prepare_dir_def isfile_def isdir_def rmtree_def makedirs_def resolve_store
      used_store_def)

lemma resolve_plain_store: "resolve base_env ''plain/store'' = Some [''work'', ''plain'', ''store'']"
  by (simp add: path_eval)

lemma clear_under_file:
  "clear_and_prepare_dir base_env ''plain/store'' used_store = (used_store, Inl OSError)"
  by (simp add: clear_and_prepare_dir_def isfile_def isdir_def makedirs_def resolve_plain_store
      used_store_def)

lemma abspath_store: "abspath base_env ''store'' = ''/work/store''"
  by (simp add: path_eval)

lemma extract_evil:
  "safe_extract_zip (zip_env evil_archive) evil_archive ''store'' prepared_work
     = (prepared_work, Inl (unsafe_entry ''../evil.txt''))"
  by (simp add: safe_extract_zip_def abspath_store evil_archive_def extract_member_def normalize_name_def
      backslash_def)

lemma resolve_session: "resolve base_env ''garth-session.json'' = Some [''work'', ''garth-session.json'']"
  by (simp add: path_eval)

lemma token_paths_store:
  "path_join ''store'' OAUTH1_TOKEN_FILENAME = ''store/oauth1_token.json''"
  "path_join ''store'' OAUTH2_TOKEN_FILENAME = ''store/oauth2_token.json''"
  by (simp_all add: path_join_def OAUTH1_TOKEN_FILENAME_def OAUTH2_TOKEN_FILENAME_def suffix_to_prefix)

lemma hydrate_legacy_fs:
  "hydrate_token_store_from_legacy_file base_env ''garth-session.json'' ''store'' legacy_fs
     = (hydrated_fs, Inr ())"
  by (simp add: hydrate_token_store_from_legacy_file_def isfile_def load_json_file_def read_file_def
      resolve_session legacy_fs_def json_loads_base_env legacy_obj_def oauth1_obj_def oauth2_obj_def
      write_if_dict_def write_json_def write_file_def token_paths_store resolve_base_env
      json_dumps_base_env[unfolded oauth1_obj_def oauth2_obj_def] hydrated_fs_def)

lemma rejected_evil: "rejected E ta (ZMember ''../evil.txt'' d)"
  by (simp add: rejected_def unsafe_name_def normalize_name_def backslash_def)

lemma same_listed: "same_but_file_order listed_21 listed_12"
  unfolding listed_21_def listed_12_def
  by (intro sf_Dir) (simp_all add: subdirs_def plain_files_def sf_Dir)

lemma well_formed_listed: "well_formed listed_21" "well_formed listed_12"
  by (simp_all add: listed_21_def listed_12_def valid_name_def)

lemma same_contents_subdirs: "same_contents subdirs_ab subdirs_ba"
proof -
  have x: "same_contents (Dir [(''x'', File True ''1'')]) (Dir [(''x'', File True ''1'')])"
    by (rule sc_Dir[where es'' = "[(''x'', File True ''1'')]"]) (simp_all add: sc_File)
  have y: "same_contents (Dir [(''y'', File True ''2'')]) (Dir [(''y'', File True ''2'')])"
    by (rule sc_Dir[where es'' = "[(''y'', File True ''2'')]"]) (simp_all add: sc_File)
  have s: "same_contents (Dir [(''a'', Dir [(''x'', File True ''1'')]), (''b'', Dir [(''y'', File True ''2'')])])
      (Dir [(''b'', Dir [(''y'', File True ''2'')]), (''a'', Dir [(''x'', File True ''1'')])])"
    by (rule sc_Dir[where es'' = "[(''a'', Dir [(''x'', File True ''1'')]), (''b'', Dir [(''y'', File True ''2'')])]"])
      (simp_all add: x y)
  have w: "same_contents (Dir [(''store'', Dir [(''a'', Dir [(''x'', File True ''1'')]), (''b'', Dir [(''y'', File True ''2'')])])])
      (Dir [(''store'', Dir [(''b'', Dir [(''y'', File True ''2'')]), (''a'', Dir [(''x'', File True ''1'')])])])"
    by (rule sc_Dir[where es'' = "[(''store'', Dir [(''b'', Dir [(''y'', File True ''2'')]), (''a'', Dir [(''x'', File True ''1'')])])]"])
      (simp_all add: s)
  show ?thesis unfolding subdirs_ab_def subdirs_ba_def
    by (rule sc_Dir[where es'' = "[(''work'', Dir [(''store'', Dir [(''b'', Dir [(''y'', File True ''2'')]), (''a'', Dir [(''x'', File True ''1'')])])])]"])
      (simp_all add: w)
qed

lemma well_formed_subdirs: "well_formed subdirs_ab" "well_formed subdirs_ba"
  by (simp_all add: subdirs_ab_def subdirs_ba_def valid_name_def)

lemma resolve_nested:
  "resolve base_env ''store/a/x'' = Some [''work'', ''store'', ''a'', ''x'']"
  "resolve base_env ''store/b/y'' = Some [''work'', ''store'', ''b'', ''y'']"
  by (simp_all add: path_eval)

lemma relpath_nested:
  "relpath base_env ''store/a/x'' ''store'' = Inr ''a/x''"
  "relpath base_env ''store/b/y'' ''store'' = Inr ''b/y''"
  by (simp_all add: relpath_def path_eval path_join_list_def)

lemma zip_arcname_nested: "zip_arcname ''a/x'' = ''a/x''" "zip_arcname ''b/y'' = ''b/y''"
  by (simp_all add: zip_arcname_def path_eval)

lemma joins_nested:
  "path_join ''store'' ''a'' = ''store/a''" "path_join ''store'' ''b'' = ''store/b''"
  "path_join ''store/a'' ''x'' = ''store/a/x''" "path_join ''store/b'' ''y'' = ''store/b/y''"
  by (simp_all add: path_join_def suffix_to_prefix)

lemma utf8_ascii:
  assumes "\<forall>c \<in> set s. of_char c < (128::nat)"
  shows "utf8_valid s"
proof -
  have "\<forall>b \<in> set bs. b < 128 \<Longrightarrow> utf8_bytes bs" for bs
    by (induction bs) (simp_all add: sequence_length_def sequence_ok_def)
  with assms show ?thesis by (simp add: utf8_valid_def)
qed

lemma utf8_samples:
  "utf8_valid [CHR 0xE2, CHR 0x82, CHR 0xAC]" "utf8_valid [CHR 0xF0, CHR 0x9F, CHR 0x98, CHR 0x80]"
  "\<not> utf8_valid [CHR 0xFF]" "\<not> utf8_valid [CHR 0xC0, CHR 0x80]"
  "\<not> utf8_valid [CHR 0xED, CHR 0xA0, CHR 0x80]" "\<not> utf8_valid [CHR 0xE2, CHR 0x82]"
  by (simp_all add: utf8_valid_def sequence_length_def sequence_ok_def continuation_def)

lemma archive_write_old_file:
  assumes "resolve E full_path = Some p" "lookup fs p = Some n" "year (file_time E p) < 1980"
  shows "archive_write E fs full_path a = Inl (ValueError ''ZIP does not support timestamps before 1980'')"
  using assms by (simp add: archive_write_def Let_def)

lemma archive_write_bad_name:
  assumes "resolve E full_path = Some p" "lookup fs p = Some (File True d)"
    "1980 \<le> year (file_time E p)" "\<not> utf8_valid (zip_arcname a)"
  shows "archive_write E fs full_path a = Inl (ValueError ''surrogates not allowed'')"
  using assms by (simp add: archive_write_def Let_def file_header_def)

lemma file_header_ascii:
  assumes "\<forall>c \<in> set name. of_char c < (128::nat)" "length name \<le> 65535" "year t \<le> 2107"
  shows "file_header (ZipInfo name t a d) = Inr (ZipInfo name t a d)"
  using assms utf8_ascii[of name] by (simp add: file_header_def)

lemma archive_write_sample:
  assumes "resolve base_env full_path = Some p" "lookup fs p = Some (File True d)"
    and "\<forall>c \<in> set (zip_arcname a). of_char c < (128::nat)" "length (zip_arcname a) \<le> 65535"
  shows "archive_write base_env fs full_path a = Inr (sample_info (zip_arcname a) d)"
proof -
  have "file_time base_env p = (2024, 5, 17, 9, 30, 0)" "file_mode base_env p = 33188"
    by (simp_all add: base_env_def)
  with assms show ?thesis
    by (simp add: archive_write_def Let_def year_def file_header_ascii sample_info_def)
qed

lemma members_ab:
  "add_walk base_env subdirs_ab ''store'' (os_walk base_env subdirs_ab ''store'')
     = Inr [sample_info ''a/x'' ''1'', sample_info ''b/y'' ''2'']"
proof -
  have l: "lookup subdirs_ab [''work'', ''store'', ''a'', ''x''] = Some (File True ''1'')"
    "lookup subdirs_ab [''work'', ''store'', ''b'', ''y''] = Some (File True ''2'')"
    by (simp_all add: subdirs_ab_def)
  have a: "archive_write base_env subdirs_ab ''store/a/x'' ''a/x'' = Inr (sample_info ''a/x'' ''1'')"
    "archive_write base_env subdirs_ab ''store/b/y'' ''b/y'' = Inr (sample_info ''b/y'' ''2'')"
    using archive_write_sample[OF resolve_nested(1) l(1), of "''a/x''"]
      archive_write_sample[OF resolve_nested(2) l(2), of "''b/y''"]
    by (simp_all add: zip_arcname_nested)
  have w: "os_walk base_env subdirs_ab ''store''
      = [(''store'', [''a'', ''b''], []), (''store/a'', [], [''x'']), (''store/b'', [], [''y''])]"
    by (simp add: os_walk_def resolve_store subdirs_ab_def joins_nested)
  show ?thesis unfolding w by (simp add: joins_nested relpath_nested a)
qed

lemma members_ba:
  "add_walk base_env subdirs_ba ''store'' (os_walk base_env subdirs_ba ''store'')
     = Inr [sample_info ''b/y'' ''2'', sample_info ''a/x'' ''1'']"
proof -
  have l: "lookup subdirs_ba [''work'', ''store'', ''a'', ''x''] = Some (File True ''1'')"
    "lookup subdirs_ba [''work'', ''store'', ''b'', ''y''] = Some (File True ''2'')"
    by (simp_all add: subdirs_ba_def)
  have a: "archive_write base_env subdirs_ba ''store/a/x'' ''a/x'' = Inr (sample_info ''a/x'' ''1'')"
    "archive_write base_env subdirs_ba ''store/b/y'' ''b/y'' = Inr (sample_info ''b/y'' ''2'')"
    using archive_write_sample[OF resolve_nested(1) l(1), of "''a/x''"]
      archive_write_sample[OF resolve_nested(2) l(2), of "''b/y''"]
    by (simp_all add: zip_arcname_nested)
  have w: "os_walk base_env subdirs_ba ''store''
      = [(''store'', [''b'', ''a''], []), (''store/b'', [], [''y'']), (''store/a'', [], [''x''])]"
    by (simp add: os_walk_def resolve_store subdirs_ba_def joins_nested)
  show ?thesis unfolding w by (simp add: joins_nested relpath_nested a)
qed

lemma zip_local_sample:
  "zip_local base_env (sample_info name d)
     = [CHR ''P'', CHR ''K'', CHR 0x03, CHR 0x04] @ le_bytes 2 2024 @ name @ [CHR 0x00] @ d"
  by (simp add: base_env_def sample_info_def year_def)

lemma b64encode_base_env: "b64encode base_env x = ''b64:'' @ x"
  by (simp add: base_env_def)

lemma json_loads_zip_bytes: "json_loads base_env (zipfile_bytes base_env (m # ms)) = None"
proof -
  obtain rest where "zipfile_bytes base_env (m # ms) = CHR ''P'' # rest"
    by (simp add: zipfile_bytes_def archive_bytes_def base_env_def)
  then show ?thesis by (simp add: base_env_def json_table_def text_defs)
qed

lemma extract_corrupt:
  "safe_extract_zip (zip_env a) corrupt_archive ''store'' prepared_work = (half_store, Inl BadZipFile)"
proof -
  have p: "abspath base_env ''/work/store/oauth1_token.json'' = ''/work/store/oauth1_token.json''"
    "resolve base_env ''/work/store'' = Some [''work'', ''store'']"
    "resolve base_env ''/work/store/oauth1_token.json'' = Some [''work'', ''store'', ''oauth1_token.json'']"
    by (simp_all add: path_eval)
  have d: "dirname ''/work/store/oauth1_token.json'' = ''/work/store''"
    by (simp add: dirname_def)
  show ?thesis
    by (simp add: safe_extract_zip_def abspath_store corrupt_archive_def extract_member_def
        normalize_name_def backslash_def path_join_def suffix_to_prefix p d is_dir_def makedirs_def
        copy_member_def write_file_def prepared_work_def half_store_def sublist_code Let_def)
qed

section \<open>The round trip: encoder members and their extraction\<close>

lemma sep_join_Cons: "sep_join (x # xs) = x @ concat (map (\<lambda>y. CHR ''/'' # y) xs)"
  by (induction xs arbitrary: x) auto

lemma sep_join_append:
  "xs \<noteq> [] \<Longrightarrow> ys \<noteq> [] \<Longrightarrow> sep_join (xs @ ys) = sep_join xs @ ''/'' @ sep_join ys"
proof -
  assume "xs \<noteq> []" "ys \<noteq> []"
  then obtain x xs' y ys' where "xs = x # xs'" "ys = y # ys'"
    by (cases xs; cases ys) auto
  then show ?thesis by (simp add: sep_join_Cons)
qed

lemma sep_join_snoc:
  "sep_join (xs @ [x]) = (if xs = [] then x else sep_join xs @ ''/'' @ x)"
  using sep_join_append[of xs "[x]"] by auto

lemma valid_name_last: "valid_name x \<Longrightarrow> \<not> suffix ''/'' (s @ x)"
  by (cases x rule: rev_cases) (auto simp: valid_name_def suffix_def)

lemma foldl_path_join:
  "list_all valid_name xs \<Longrightarrow> acc \<noteq> [] \<Longrightarrow> \<not> suffix ''/'' acc \<Longrightarrow>
   foldl path_join acc xs = acc @ concat (map (\<lambda>y. CHR ''/'' # y) xs)"
proof (induction xs arbitrary: acc)
  case Nil
  then show ?case by simp
next
  case (Cons x xs)
  from Cons.prems have x: "valid_name x" by simp
  then have "\<not> prefix ''/'' x" by (auto simp: valid_name_def prefix_def)
  with Cons.prems have j: "path_join acc x = acc @ ''/'' @ x" by (simp add: path_join_def)
  have "\<not> suffix ''/'' (acc @ ''/'' @ x)" using valid_name_last[OF x, of "acc @ ''/''"] by simp
  with Cons.IH[of "acc @ ''/'' @ x"] Cons.prems j show ?case by simp
qed

lemma path_join_list_valid:
  assumes "list_all valid_name r" "r \<noteq> []"
  shows "path_join_list r = sep_join r"
proof -
  from assms obtain x xs where r: "r = x # xs" by (cases r) auto
  with assms have "valid_name x" "list_all valid_name xs" by simp_all
  with foldl_path_join[of xs x] valid_name_last[of x "[]"] r show ?thesis
    by (simp add: path_join_list_def sep_join_Cons valid_name_def)
qed

lemma commonprefix_append [simp]: "commonprefix xs (xs @ ys) = xs"
  by (induction xs) auto

lemma relpath_below:
  assumes p: "resolve E p = Some (D @ r)" and d: "resolve E directory = Some D"
    and r: "r \<noteq> []" "list_all valid_name r"
  shows "relpath E p directory = Inr (sep_join r)"
proof -
  from p have "p \<noteq> []" "path_comps (abspath E p) = D @ r" by (auto simp: resolve_def split: if_splits)
  moreover from d have "path_comps (abspath E directory) = D" by (auto simp: resolve_def split: if_splits)
  ultimately show ?thesis using r by (simp add: relpath_def Let_def path_join_list_valid)
qed

lemma sep_join_not_Nil: "list_all valid_name r \<Longrightarrow> r \<noteq> [] \<Longrightarrow> sep_join r \<noteq> []"
  by (simp add: sep_join_Nil_iff)

lemma sep_join_no_sep_prefix: "list_all valid_name r \<Longrightarrow> \<not> prefix ''/'' (sep_join r)"
  using sep_join_no_leading_sep[of r "[]"] by auto

lemma normpath_relative:
  assumes "list_all valid_name r" "r \<noteq> []"
  shows "normpath (sep_join r) = sep_join r"
proof -
  have i: "initial_slashes (sep_join r) = 0"
    using sep_join_no_sep_prefix[OF assms(1)] by (simp add: initial_slashes_def)
  have "split_sep (sep_join r) = r"
    using assms by (intro split_sep_sep_join) (auto simp: list_all_iff valid_name_def)
  with i assms sep_join_not_Nil[OF assms] show ?thesis
    by (simp add: normpath_def Let_def foldl_norm_step_clean)
qed

lemma zip_arcname_valid:
  assumes "list_all valid_name r" "r \<noteq> []"
  shows "zip_arcname (sep_join r) = sep_join r"
proof -
  from sep_join_no_sep_prefix[OF assms(1)] sep_join_not_Nil[OF assms]
  have "dropWhile (\<lambda>c. c = CHR ''/'') (sep_join r) = sep_join r"
    by (cases "sep_join r") auto
  then show ?thesis by (simp add: zip_arcname_def normpath_relative[OF assms])
qed

lemma split_sep_inj:
  assumes "list_all valid_name r" "r \<noteq> []" "list_all valid_name r'" "r' \<noteq> []"
    and "sep_join r = sep_join r'"
  shows "r = r'"
proof -
  have "split_sep (sep_join r) = r"
    using assms(1,2) by (intro split_sep_sep_join) (auto simp: list_all_iff valid_name_def)
  moreover have "split_sep (sep_join r') = r'"
    using assms(3,4) by (intro split_sep_sep_join) (auto simp: list_all_iff valid_name_def)
  ultimately show ?thesis using assms(5) by metis
qed

text \<open>The destination of a clean relative name below a normalised target.\<close>

lemma destination_below:
  assumes T: "resolve E target = Some T" "T \<noteq> []"
    and r: "list_all valid_name r" "r \<noteq> []"
  shows "\<exists>k. (k = 1 \<or> k = 2)
     \<and> abspath E target = replicate k CHR ''/'' @ sep_join T
     \<and> abspath E (path_join (abspath E target) (sep_join r)) = replicate k CHR ''/'' @ sep_join (T @ r)
     \<and> abspath E target @ ''/'' @ sep_join r = replicate k CHR ''/'' @ sep_join (T @ r)"
proof -
  from T have Tc: "T = path_comps (abspath E target)" by (auto simp: resolve_def split: if_splits)
  from abspath_form[of E target] Tc obtain k where k: "k = 1 \<or> k = 2"
    and f: "abspath E target = replicate k CHR ''/'' @ sep_join T"
    and v: "list_all valid_name T" by auto
  have ns: "\<not> suffix ''/'' (abspath E target)"
    using sep_join_last_not_sep[OF v T(2), of "replicate k CHR ''/''"] f by simp
  have np: "\<not> prefix ''/'' (sep_join r)" by (rule sep_join_no_sep_prefix[OF r(1)])
  have ne: "abspath E target \<noteq> []" using prefix_sep_abspath[of E target] by auto
  from ns np ne have j: "path_join (abspath E target) (sep_join r) = abspath E target @ ''/'' @ sep_join r"
    by (simp add: path_join_def)
  have a: "abspath E target @ ''/'' @ sep_join r = replicate k CHR ''/'' @ sep_join (T @ r)"
    using f sep_join_append[OF T(2) r(2)] by simp
  have p: "prefix ''/'' (replicate k CHR ''/'' @ sep_join (T @ r))"
    using k by (auto simp: numeral_2_eq_2)
  have vv: "list_all valid_name (T @ r)" using v r by simp
  have "abspath E (replicate k CHR ''/'' @ sep_join (T @ r)) = replicate k CHR ''/'' @ sep_join (T @ r)"
    using p normpath_normal[OF k vv] by (simp add: abspath_def)
  with j a k f show ?thesis by auto
qed

lemma dropWhile_rev_valid:
  "CHR ''/'' \<notin> set x \<Longrightarrow> dropWhile (\<lambda>c. c \<noteq> CHR ''/'') (rev x @ s) = dropWhile (\<lambda>c. c \<noteq> CHR ''/'') s"
  by (induction x rule: rev_induct) auto

lemma dirname_normal:
  assumes k: "0 < k" and v: "list_all valid_name cs" and ne: "cs \<noteq> []"
  shows "dirname (replicate k CHR ''/'' @ sep_join cs) = replicate k CHR ''/'' @ sep_join (butlast cs)"
proof -
  from ne obtain bs x where cs: "cs = bs @ [x]" by (cases cs rule: rev_cases) auto
  with v have x: "valid_name x" and vb: "list_all valid_name bs" by simp_all
  then have nx: "CHR ''/'' \<notin> set x" by (simp add: valid_name_def)
  from k obtain k' where k': "k = Suc k'" by (cases k) auto
  show ?thesis
  proof (cases "bs = []")
    case True
    have "rev (replicate k CHR ''/'' @ x) = rev x @ replicate k CHR ''/''"
      by simp
    then have "dropWhile (\<lambda>c. c \<noteq> CHR ''/'') (rev (replicate k CHR ''/'' @ x)) = replicate k CHR ''/''"
      using dropWhile_rev_valid[OF nx, of "replicate k CHR ''/''"] k' by simp
    with True cs show ?thesis by (simp add: dirname_def Let_def)
  next
    case False
    let ?h = "replicate k CHR ''/'' @ sep_join bs @ ''/''"
    have p: "replicate k CHR ''/'' @ sep_join cs = ?h @ x"
      using cs False by (simp add: sep_join_snoc)
    have "dropWhile (\<lambda>c. c \<noteq> CHR ''/'') (rev (?h @ x)) = rev ?h"
      using dropWhile_rev_valid[OF nx, of "rev ?h"] by simp
    then have head: "rev (dropWhile (\<lambda>c. c \<noteq> CHR ''/'') (rev (?h @ x))) = ?h" by simp
    from vb False obtain y ys where "sep_join bs = ys @ [y]" "y \<noteq> CHR ''/''"
      using sep_join_last_not_sep[OF vb False, of "[]"] sep_join_not_Nil[OF vb False]
      by (cases "sep_join bs" rule: rev_cases) (auto simp: suffix_def)
    then have strip: "rev (dropWhile (\<lambda>c. c = CHR ''/'') (rev ?h)) = replicate k CHR ''/'' @ sep_join bs"
      and notall: "?h \<noteq> replicate (length ?h) CHR ''/''"
      by (auto simp: replicate_append_same[symmetric] dest: arg_cong[where f = set])
    from head strip notall cs show ?thesis
      unfolding p by (simp add: dirname_def Let_def)
  qed
qed

lemma every_below_in_iff:
  "every_below_in P r es \<longleftrightarrow> (\<forall>(name, n) \<in> set es. P (r @ [name]) n \<and> every_below P (r @ [name]) n)"
  by (induction es) auto

lemma every_below_mono:
  assumes "\<And>r n. P r n \<Longrightarrow> Q r n"
  shows "every_below P r n \<Longrightarrow> every_below Q r n"
proof (induction n arbitrary: r)
  case (File rd d)
  then show ?case by simp
next
  case (Dir es)
  have "P (r @ [name]) m \<and> every_below P (r @ [name]) m
      \<Longrightarrow> Q (r @ [name]) m \<and> every_below Q (r @ [name]) m"
    if "(name, m) \<in> set es" for name m
  proof -
    have "m \<in> Basic_BNFs.snds (name, m)" by simp
    from Dir.IH[OF that this] assms show "P (r @ [name]) m \<and> every_below P (r @ [name]) m
      \<Longrightarrow> Q (r @ [name]) m \<and> every_below Q (r @ [name]) m" by blast
  qed
  with Dir.prems show ?case by (auto simp: every_below_in_iff)
qed

lemma add_walk_append:
  "add_walk E fs d (w1 @ w2) =
     (case add_walk E fs d w1 of
        Inl e \<Rightarrow> Inl e
      | Inr m1 \<Rightarrow> (case add_walk E fs d w2 of Inl e \<Rightarrow> Inl e | Inr m2 \<Rightarrow> Inr (m1 @ m2)))"
proof (induction w1)
  case Nil
  then show ?case by (simp split: sum.splits)
next
  case (Cons a w1)
  obtain root dirs files where "a = (root, dirs, files)" by (cases a)
  with Cons show ?case by (simp split: sum.splits)
qed

lemma add_walk_concat:
  assumes "\<And>w. w \<in> set ws \<Longrightarrow> \<exists>ms. add_walk E fs d w = Inr ms \<and> (\<forall>m \<in> set ms. Q m)"
  shows "\<exists>ms. add_walk E fs d (concat ws) = Inr ms \<and> (\<forall>m \<in> set ms. Q m)"
  using assms
proof (induction ws)
  case Nil
  then show ?case by simp
next
  case (Cons w ws)
  from Cons.prems[of w] obtain m1 where 1: "add_walk E fs d w = Inr m1" "\<forall>m \<in> set m1. Q m" by auto
  from Cons.IH Cons.prems obtain m2 where 2: "add_walk E fs d (concat ws) = Inr m2" "\<forall>m \<in> set m2. Q m"
    by auto
  from 1 2 show ?case by (auto simp: add_walk_append)
qed

lemma add_files_members:
  assumes d: "resolve E directory = Some D"
    and t: "resolve E t = Some (D @ r0)" and l: "lookup fs (D @ r0) = Some (Dir es)"
    and r0: "list_all valid_name r0" "\<forall>x \<in> set r0. backslash \<notin> set x"
    and fl: "\<forall>f \<in> set fl. valid_name f
        \<and> (\<exists>c. map_of es f = Some (File True c) \<and> archivable E D (r0 @ [f]) (File True c))"
  shows "\<exists>ms. add_files E fs directory t fl = Inr ms \<and> (\<forall>m \<in> set ms. member_of fs D (stored m))
     \<and> (\<forall>f \<in> set fl. \<forall>c. map_of es f = Some (File True c)
           \<longrightarrow> ZMember (sep_join (r0 @ [f])) (Data c) \<in> stored ` set ms)"
  using fl
proof (induction fl)
  case Nil
  then show ?case by simp
next
  case (Cons f fl)
  from Cons.prems obtain c where f: "valid_name f" "map_of es f = Some (File True c)"
    "archivable E D (r0 @ [f]) (File True c)"
    by auto
  from Cons.IH Cons.prems obtain ms where ms: "add_files E fs directory t fl = Inr ms"
    "\<forall>m \<in> set ms. member_of fs D (stored m)"
    "\<forall>f \<in> set fl. \<forall>c. map_of es f = Some (File True c)
        \<longrightarrow> ZMember (sep_join (r0 @ [f])) (Data c) \<in> stored ` set ms"
    by auto
  let ?r = "r0 @ [f]"
  from f(3) have a: "backslash \<notin> set f" "1980 \<le> year (file_time E (D @ ?r))"
    "year (file_time E (D @ ?r)) \<le> 2107" "utf8_valid (sep_join ?r)" "length (sep_join ?r) \<le> 65535"
    by (simp_all add: archivable_def)
  have v: "list_all valid_name ?r" "?r \<noteq> []" using r0 f by simp_all
  have p: "resolve E (path_join t f) = Some (D @ ?r)"
    using resolve_path_join[OF f(1) t] by simp
  have rel: "relpath E (path_join t f) directory = Inr (sep_join ?r)"
    by (rule relpath_below[OF p d v(2,1)])
  have lk: "lookup fs (D @ ?r) = Some (File True c)"
    using l f(2) lookup_append[of fs "D @ r0" "[f]"] by simp
  let ?info = "ZipInfo (sep_join ?r) (file_time E (D @ ?r)) (file_mode E (D @ ?r) mod 65536 * 65536) c"
  from lk a have aw: "archive_write E fs (path_join t f) (sep_join ?r) = Inr ?info"
    by (simp add: archive_write_def p zip_arcname_valid[OF v] file_header_def Let_def)
  have mem: "member_of fs D (stored ?info)"
    unfolding member_of_def stored_def using v r0 a(1) lk by (intro exI[of _ ?r] exI[of _ c]) auto
  from rel aw ms(1) have "add_files E fs directory t (f # fl) = Inr (?info # ms)"
    by (simp add: Let_def)
  moreover have "ZMember (sep_join ?r) (Data c) \<in> stored ` set (?info # ms)"
    by (simp add: stored_def)
  ultimately show ?case using mem ms f(2) by auto
qed

lemma walk_members:
  assumes d: "resolve E directory = Some D"
  shows "resolve E t = Some (D @ r0) \<Longrightarrow> lookup fs (D @ r0) = Some n \<Longrightarrow>
     list_all valid_name r0 \<Longrightarrow> \<forall>x \<in> set r0. backslash \<notin> set x \<Longrightarrow>
     well_formed n \<Longrightarrow> every_below (archivable E D) r0 n \<Longrightarrow>
     \<exists>ms. add_walk E fs directory (walk t n) = Inr ms \<and> (\<forall>m \<in> set ms. member_of fs D (stored m))
       \<and> (\<forall>es name c. n = Dir es \<and> map_of es name = Some (File True c)
             \<longrightarrow> ZMember (sep_join (r0 @ [name])) (Data c) \<in> stored ` set ms)"
proof (induction n arbitrary: t r0)
  case (File r x)
  then show ?case by simp
next
  case (Dir es)
  note wf = \<open>well_formed (Dir es)\<close>
  from wf have dist: "distinct (map fst es)" by simp
  from Dir.prems(6) have ar: "\<forall>(name, n) \<in> set es.
      archivable E D (r0 @ [name]) n \<and> every_below (archivable E D) (r0 @ [name]) n"
    by (simp add: every_below_in_iff)
  let ?files = "sort (map fst (plain_files es))"
  have fl: "\<forall>f \<in> set ?files. valid_name f
      \<and> (\<exists>c. map_of es f = Some (File True c) \<and> archivable E D (r0 @ [f]) (File True c))"
  proof
    fix f assume "f \<in> set ?files"
    then obtain n where mem: "(f, n) \<in> set es" and nd: "\<not> is_directory n"
      by (auto simp: plain_files_def)
    from nd obtain r c where n: "n = File r c" by (cases n) auto
    from ar mem n have a: "archivable E D (r0 @ [f]) (File r c)" by auto
    then have "r" by (simp add: archivable_def)
    with dist mem n a have "map_of es f = Some (File True c)" "archivable E D (r0 @ [f]) (File True c)"
      by simp_all
    with well_formed_entry[OF wf mem]
    show "valid_name f \<and> (\<exists>c. map_of es f = Some (File True c)
        \<and> archivable E D (r0 @ [f]) (File True c))" by auto
  qed
  from add_files_members[OF d Dir.prems(1,2,3,4) fl] obtain m1 where
    m1: "add_files E fs directory t ?files = Inr m1" "\<forall>m \<in> set m1. member_of fs D (stored m)"
    "\<forall>f \<in> set ?files. \<forall>c. map_of es f = Some (File True c)
       \<longrightarrow> ZMember (sep_join (r0 @ [f])) (Data c) \<in> stored ` set m1" by blast
  have sub: "\<exists>ms. add_walk E fs directory w = Inr ms \<and> (\<forall>m \<in> set ms. member_of fs D (stored m))"
    if w: "w \<in> set (map (\<lambda>e. walk (path_join t (fst e)) (snd e)) (subdirs es))" for w
  proof -
    from w obtain name n where mem: "(name, n) \<in> set es" and w': "w = walk (path_join t name) n"
      by (auto simp: subdirs_def)
    from well_formed_entry[OF wf mem] have v: "valid_name name" "well_formed n" by simp_all
    from dist mem have mo: "map_of es name = Some n" by simp
    have 1: "resolve E (path_join t name) = Some (D @ (r0 @ [name]))"
      using resolve_path_join[OF v(1) Dir.prems(1)] by simp
    have 2: "lookup fs (D @ (r0 @ [name])) = Some n"
      using Dir.prems(2) mo lookup_append[of fs "D @ r0" "[name]"] by simp
    from ar mem have 3: "backslash \<notin> set name" "every_below (archivable E D) (r0 @ [name]) n"
      by (auto simp: archivable_def)
    have "n \<in> Basic_BNFs.snds (name, n)" by simp
    from Dir.IH[OF mem this 1 2 _ _ v(2) 3(2)] Dir.prems(3,4) v(1) 3(1) w'
    show ?thesis by auto
  qed
  from add_walk_concat[of "map (\<lambda>e. walk (path_join t (fst e)) (snd e)) (subdirs es)" E fs directory
      "\<lambda>m. member_of fs D (stored m)", OF sub]
  obtain m2 where m2: "add_walk E fs directory
      (concat (map (\<lambda>e. walk (path_join t (fst e)) (snd e)) (subdirs es))) = Inr m2"
    "\<forall>m \<in> set m2. member_of fs D (stored m)" by blast
  from m1(1) m2(1) have "add_walk E fs directory (walk t (Dir es)) = Inr (m1 @ m2)"
    unfolding walk_Dir by simp
  moreover have "ZMember (sep_join (r0 @ [name])) (Data c) \<in> stored ` set (m1 @ m2)"
    if "map_of es name = Some (File True c)" for name c
  proof -
    from that have "(name, File True c) \<in> set es" by (rule map_of_SomeD)
    then have "name \<in> set ?files" by (force simp: plain_files_def)
    with m1(3) that show ?thesis by auto
  qed
  ultimately show ?case using m1(2) m2(2) by auto
qed

lemma set_sep_join: "set (sep_join r) \<subseteq> \<Union> (set ` set r) \<union> {CHR ''/''}"
  by (induction r rule: sep_join.induct) auto

lemma normalize_name_clean:
  assumes "\<forall>x \<in> set r. backslash \<notin> set x"
  shows "normalize_name (sep_join r) = sep_join r"
proof -
  have "backslash \<notin> set (sep_join r)"
    using set_sep_join[of r] assms by (auto simp: backslash_def)
  then show ?thesis by (auto simp: normalize_name_def intro!: map_idI)
qed

lemma dotdot_component:
  assumes v: "list_all valid_name r" "r \<noteq> []" and s: "sep_join r = ps @ ''..'' @ ss"
    and ps: "ps = [] \<or> suffix ''/'' ps" and ss: "ss = [] \<or> prefix ''/'' ss"
  shows False
proof -
  have sp: "split_sep (sep_join r) = r"
    using v by (intro split_sep_sep_join) (auto simp: list_all_iff valid_name_def)
  have dd: "split_sep ''..'' = [''..'']" by simp
  have "''..'' \<in> set (split_sep (ps @ ''..'' @ ss))"
  proof -
    have tail: "\<exists>rest. split_sep (''..'' @ ss) = ''..'' # rest"
    proof (cases "ss = []")
      case True
      then show ?thesis by simp
    next
      case False
      with ss obtain ss' where "ss = CHR ''/'' # ss'" by (auto simp: prefix_def)
      with split_sep_append_sep[of "''..''" ss'] show ?thesis by simp
    qed
    show ?thesis
    proof (cases "ps = []")
      case True
      with tail show ?thesis by auto
    next
      case False
      with ps obtain ps' where "ps = ps' @ ''/''" by (auto simp: suffix_def)
      with split_sep_append_sep[of ps' "''..'' @ ss"] tail show ?thesis by auto
    qed
  qed
  with s sp have "''..'' \<in> set r" by simp
  with v(1) show False by (auto simp: list_all_iff valid_name_def)
qed

lemma clean_name_not_unsafe:
  assumes v: "list_all valid_name r" "r \<noteq> []"
  shows "\<not> unsafe_name (sep_join r)"
proof
  assume "unsafe_name (sep_join r)"
  then consider "prefix ''/'' (sep_join r)" | "prefix ''../'' (sep_join r)"
    | "sublist ''/../'' (sep_join r)" | "sep_join r = ''..''"
    by (auto simp: unsafe_name_def)
  then show False
  proof cases
    case 1
    with sep_join_no_sep_prefix[OF v(1)] show False by simp
  next
    case 2
    then obtain ss where "sep_join r = [] @ ''..'' @ (''/'' @ ss)" by (auto simp: prefix_def)
    from dotdot_component[OF v this] show False by simp
  next
    case 3
    then obtain ps ss where "sep_join r = (ps @ ''/'') @ ''..'' @ (''/'' @ ss)"
      by (auto simp: sublist_def)
    from dotdot_component[OF v this] show False by simp
  next
    case 4
    then have "sep_join r = [] @ ''..'' @ []" by simp
    from dotdot_component[OF v this] show False by simp
  qed
qed

lemma resolve_normal:
  assumes "k = 1 \<or> k = 2" "list_all valid_name cs"
  shows "resolve E (replicate k CHR ''/'' @ sep_join cs) = Some cs"
proof -
  let ?p = "replicate k CHR ''/'' @ sep_join cs"
  from assms(1) have p: "prefix ''/'' ?p" "?p \<noteq> []" by (auto simp: numeral_2_eq_2)
  then have "abspath E ?p = ?p" using normpath_normal[OF assms] by (simp add: abspath_def)
  moreover have "path_comps ?p = cs"
    using assms(2) by (simp add: path_comps_sep_join list_all_iff valid_name_def)
  ultimately show ?thesis using p(2) by (simp add: resolve_def)
qed

lemma lookup_below_Dir:
  "lookup n (p @ c # cs) = Some x \<Longrightarrow> \<exists>es. lookup n p = Some (Dir es)"
proof -
  assume a: "lookup n (p @ c # cs) = Some x"
  then obtain m where m: "lookup n p = Some m" "lookup m (c # cs) = Some x"
    by (auto simp: lookup_append split: option.splits)
  then show ?thesis by (cases m) auto
qed

lemma stat_proper_prefix:
  assumes "stat S (D @ r) = Some k" "prefix r' r" "r' \<noteq> r"
  shows "stat S (D @ r') = Some KDir"
proof -
  from assms(2,3) obtain c cs where "r = r' @ c # cs"
    by (auto simp: prefix_def) (metis append_Nil2 neq_Nil_conv)
  with assms(1) obtain x where "lookup S ((D @ r') @ c # cs) = Some x" by (auto simp: stat_def)
  from lookup_below_Dir[OF this] show ?thesis by (auto simp: stat_def)
qed

lemma prefix_butlast_proper:
  assumes "prefix r' (butlast r)" "r \<noteq> []"
  shows "prefix r' r" "r' \<noteq> r"
proof -
  from assms(1) prefixeq_butlast[of r] show "prefix r' r" by (rule prefix_order.trans)
  from assms(1) have "length r' \<le> length (butlast r)" by (rule prefix_length_le)
  with assms(2) show "r' \<noteq> r" by (auto simp: length_greater_0_conv[symmetric] simp del: length_greater_0_conv)
qed

lemma mirrors_entry:
  "mirrors S D fs T \<Longrightarrow> r \<noteq> [] \<Longrightarrow> stat fs (T @ r) = Some (KFile rd c)
     \<Longrightarrow> rd \<and> stat S (D @ r) = Some (KFile True c)"
  by (auto simp: mirrors_def split: option.splits kind.splits dest!: spec[of _ r])

lemma mirrors_dir:
  "mirrors S D fs T \<Longrightarrow> r \<noteq> [] \<Longrightarrow> stat fs (T @ r) = Some KDir \<Longrightarrow> stat S (D @ r) = Some KDir"
  by (auto simp: mirrors_def split: option.splits kind.splits dest!: spec[of _ r])

lemma extract_member_mirror:
  assumes T: "resolve E target = Some T" "T \<noteq> []"
    and inv: "mirrors S D fs T"
    and m: "member_of S D m"
  shows "\<exists>fs'. extract_member E (abspath E target) m fs = (fs', Inr ())
     \<and> mirrors S D fs' T
     \<and> (\<forall>q. is_file_at fs q \<longrightarrow> is_file_at fs' q)
     \<and> (\<exists>r c. m = ZMember (sep_join r) (Data c) \<and> r \<noteq> [] \<and> list_all valid_name r
           \<and> is_file_at fs' (T @ r))"
proof -
  from m obtain r c where r: "r \<noteq> []" "list_all valid_name r" "\<forall>x \<in> set r. backslash \<notin> set x"
    and mm: "m = ZMember (sep_join r) (Data c)" and S: "lookup S (D @ r) = Some (File True c)"
    by (auto simp: member_of_def)
  from S have Sr: "stat S (D @ r) = Some (KFile True c)" by (simp add: stat_def)
  let ?name = "sep_join r" and ?ta = "abspath E target"
  from destination_below[OF T r(2,1)] obtain k where k: "k = 1 \<or> k = 2"
    and ta: "?ta = replicate k CHR ''/'' @ sep_join T"
    and dest: "abspath E (path_join ?ta ?name) = replicate k CHR ''/'' @ sep_join (T @ r)"
    and below: "?ta @ ''/'' @ ?name = replicate k CHR ''/'' @ sep_join (T @ r)" by blast
  let ?d = "replicate k CHR ''/'' @ sep_join (T @ r)"
  from T have vT: "list_all valid_name T"
    using abspath_form[of E target] by (auto simp: resolve_def split: if_splits)
  have vTr: "list_all valid_name (T @ r)" "T @ r \<noteq> []" using vT r by simp_all
  have nn: "normalize_name ?name = ?name" by (rule normalize_name_clean[OF r(3)])
  have ne: "?name \<noteq> []" by (rule sep_join_not_Nil[OF r(2,1)])
  from clean_name_not_unsafe[OF r(2,1)] have safe: "\<not> prefix ''/'' ?name" "\<not> prefix ''../'' ?name"
    "\<not> sublist ''/../'' ?name" "?name \<noteq> ''..''" by (auto simp: unsafe_name_def)
  have "prefix (?ta @ ''/'') (?ta @ ''/'' @ ?name)" by simp
  then have pre: "prefix (?ta @ ''/'') ?d" unfolding below .
  have nd: "\<not> is_dir m" using sep_join_last_not_sep[OF r(2,1), of "[]"] mm by (simp add: is_dir_def)
  have k0: "0 < k" using k by auto
  have dn: "dirname ?d = replicate k CHR ''/'' @ sep_join (butlast (T @ r))"
    by (rule dirname_normal[OF k0 vTr])
  have bl: "butlast (T @ r) = T @ butlast r" using r(1) by (simp add: butlast_append)
  have vb: "list_all valid_name (T @ butlast r)"
    using vT r(2) by (auto simp: list_all_iff dest: in_set_butlastD)
  have rdn: "resolve E (dirname ?d) = Some (T @ butlast r)"
    using resolve_normal[OF k vb] dn bl by simp
  have rd: "resolve E ?d = Some (T @ r)" by (rule resolve_normal[OF k vTr(1)])
  have way: "stat fs q = None \<or> stat fs q = Some KDir" if q: "prefix q (T @ butlast r)" for q
  proof (cases "prefix q T")
    case True
    with inv show ?thesis by (simp add: mirrors_def)
  next
    case False
    with q obtain r' where q': "q = T @ r'" "prefix r' (butlast r)"
      unfolding prefix_append by blast
    with False have q'2: "r' \<noteq> []" by auto
    note pr = prefix_butlast_proper[OF q'(2) r(1)]
    show ?thesis
    proof (cases "stat fs q")
      case None
      then show ?thesis by simp
    next
      case (Some kd)
      show ?thesis
      proof (cases kd)
        case KDir
        with Some show ?thesis by simp
      next
        case (KFile rd' c')
        with Some q' mirrors_entry[OF inv q'2, of rd' c'] stat_proper_prefix[OF Sr pr]
        show ?thesis by simp
      qed
    qed
  qed
  from makedirs_node_succeeds[of "T @ butlast r" fs] way obtain fs1 where
    mk: "makedirs_node fs (T @ butlast r) = Some fs1" by blast
  note st1 = makedirs_node_stat[OF mk]
  have inv1: "mirrors S D fs1 T"
    unfolding mirrors_def
  proof (intro conjI allI impI)
    fix q assume "prefix q T"
    with inv st1[of q] show "stat fs1 q = Some KDir" by (auto simp: mirrors_def)
  next
    fix r'' :: "string list" assume n: "r'' \<noteq> []"
    show "case stat fs1 (T @ r'') of None \<Rightarrow> True
        | Some KDir \<Rightarrow> stat S (D @ r'') = Some KDir
        | Some (KFile rd c) \<Rightarrow> rd \<and> stat S (D @ r'') = Some (KFile True c)"
    proof (cases "prefix (T @ r'') (T @ butlast r)")
      case True
      then have "prefix r'' (butlast r)" by simp
      from stat_proper_prefix[OF Sr prefix_butlast_proper[OF this r(1)]] True st1[of "T @ r''"] show ?thesis by simp
    next
      case False
      with st1[of "T @ r''"] inv n show ?thesis by (simp add: mirrors_def)
    qed
  qed
  have Tdir: "stat fs1 (T @ butlast r) = Some KDir" using st1[of "T @ butlast r"] by simp
  have lastr: "T @ r = (T @ butlast r) @ [last r]" using r(1) by simp
  have notdir: "stat fs1 (T @ r) \<noteq> Some KDir"
    using mirrors_dir[OF inv1 r(1)] Sr by auto
  from write_file_ok[of E ?d "T @ butlast r" "last r" fs1 c] rd lastr Tdir notdir
  obtain fs2 where wr: "write_file E ?d c fs1 = (fs2, Inr ())"
    and st2: "\<forall>q. stat fs2 q = (if q = T @ r
        then Some (KFile (case stat fs1 (T @ r) of Some (KFile rd c) \<Rightarrow> rd | _ \<Rightarrow> True) c)
        else stat fs1 q)"
    by (auto simp del: append_assoc)
  have flag: "(case stat fs1 (T @ r) of Some (KFile rd c) \<Rightarrow> rd | _ \<Rightarrow> True) = True"
    using mirrors_entry[OF inv1 r(1)] by (auto split: option.splits kind.splits)
  with st2 have st2': "stat fs2 q = (if q = T @ r then Some (KFile True c) else stat fs1 q)" for q
    by simp
  have inv2: "mirrors S D fs2 T"
    unfolding mirrors_def
  proof (intro conjI allI impI)
    fix q assume q: "prefix q T"
    with r(1) have "q \<noteq> T @ r" by (auto simp: prefix_def)
    with inv1 q st2'[of q] show "stat fs2 q = Some KDir" by (simp add: mirrors_def)
  next
    fix r'' :: "string list" assume n: "r'' \<noteq> []"
    from inv1 n st2'[of "T @ r''"] Sr
    show "case stat fs2 (T @ r'') of None \<Rightarrow> True
        | Some KDir \<Rightarrow> stat S (D @ r'') = Some KDir
        | Some (KFile rd c) \<Rightarrow> rd \<and> stat S (D @ r'') = Some (KFile True c)"
      by (auto simp: mirrors_def)
  qed
  have keep: "is_file_at fs2 q" if "is_file_at fs q" for q
  proof -
    from that makedirs_node_file_at[OF mk, of q] have "is_file_at fs1 q"
      by (auto simp: is_file_at_def file_at_stat split: option.splits kind.splits)
    with st2'[of q] show ?thesis by (auto simp: is_file_at_def)
  qed
  have "extract_member E ?ta m fs = (fs2, Inr ())"
    using mm ne nn safe dest pre nd rdn mk wr
    by (simp add: extract_member_def Let_def makedirs_def copy_member_def)
  moreover have "stat fs2 (T @ r) = Some (KFile True c)" using st2'[of "T @ r"] by simp
  then have "is_file_at fs2 (T @ r)" unfolding is_file_at_def by blast
  ultimately show ?thesis using inv2 keep mm r by blast
qed

lemma extract_members_mirror:
  assumes T: "resolve E target = Some T" "T \<noteq> []"
  shows "mirrors S D fs T \<Longrightarrow> \<forall>m \<in> set ms. member_of S D m \<Longrightarrow>
     \<exists>fs'. extract_members E (abspath E target) ms fs = (fs', Inr ())
       \<and> mirrors S D fs' T
       \<and> (\<forall>q. is_file_at fs q \<longrightarrow> is_file_at fs' q)
       \<and> (\<forall>m \<in> set ms. \<exists>r c. m = ZMember (sep_join r) (Data c) \<and> r \<noteq> [] \<and> list_all valid_name r
             \<and> is_file_at fs' (T @ r))"
proof (induction ms arbitrary: fs)
  case Nil
  then show ?case by simp
next
  case (Cons m ms)
  from Cons.prems(2) have m: "member_of S D m" by simp
  from extract_member_mirror[OF T Cons.prems(1) m] obtain fs1 r c where
    1: "extract_member E (abspath E target) m fs = (fs1, Inr ())" "mirrors S D fs1 T"
      "\<forall>q. is_file_at fs q \<longrightarrow> is_file_at fs1 q"
      "m = ZMember (sep_join r) (Data c)" "r \<noteq> []" "list_all valid_name r" "is_file_at fs1 (T @ r)"
    by blast
  from Cons.IH[OF 1(2)] Cons.prems(2) obtain fs2 where
    2: "extract_members E (abspath E target) ms fs1 = (fs2, Inr ())" "mirrors S D fs2 T"
      "\<forall>q. is_file_at fs1 q \<longrightarrow> is_file_at fs2 q"
      "\<forall>m \<in> set ms. \<exists>r c. m = ZMember (sep_join r) (Data c) \<and> r \<noteq> [] \<and> list_all valid_name r
             \<and> is_file_at fs2 (T @ r)"
    by auto
  from 1(1) 2(1) have "extract_members E (abspath E target) (m # ms) fs = (fs2, Inr ())" by simp
  moreover from 1(4-7) 2(3) have "\<exists>r c. m = ZMember (sep_join r) (Data c) \<and> r \<noteq> []
      \<and> list_all valid_name r \<and> is_file_at fs2 (T @ r)" by blast
  ultimately show ?case using 1(3) 2(2,3,4) by auto
qed

lemma well_formed_lookup:
  "well_formed n \<Longrightarrow> lookup n p = Some m \<Longrightarrow> well_formed m"
proof (induction p arbitrary: n)
  case Nil
  then show ?case by simp
next
  case (Cons c p)
  from Cons.prems(2) obtain es where n: "n = Dir es" by (cases n) auto
  with Cons.prems(2) obtain k where k: "map_of es c = Some k" "lookup k p = Some m"
    by (auto split: option.splits)
  from k(1) have "(c, k) \<in> set es" by (rule map_of_SomeD)
  with Cons.prems(1) n have "well_formed k" by (auto simp: well_formed_entries_iff)
  from Cons.IH[OF this k(2)] show ?case .
qed

lemma clear_fresh:
  assumes "clear_and_prepare_dir E t fs = (fs0, Inr u)"
  shows "\<exists>fs1 T. resolve E t = Some T \<and> makedirs_node fs1 T = Some fs0 \<and> lookup fs1 T = None"
proof (cases "isfile E fs t")
  case True
  with assms obtain fs1 u1 where rm: "os_remove E t fs = (fs1, Inr u1)"
    and mk: "makedirs E t fs1 = (fs0, Inr u)"
    by (auto simp: clear_and_prepare_dir_def split: prod.splits sum.splits)
  from os_remove_cases[OF rm] obtain p where p: "resolve E t = Some p" "alter unlink fs p = Some fs1"
    by auto
  from makedirs_cases[OF mk] p have "makedirs_node fs1 p = Some fs0" by auto
  with alter_unlink_gone[OF p(2)] p show ?thesis by blast
next
  case False
  show ?thesis
  proof (cases "isdir E fs t")
    case True
    with False assms obtain fs1 u1 where rm: "rmtree E t fs = (fs1, Inr u1)"
      and mk: "makedirs E t fs1 = (fs0, Inr u)"
      by (auto simp: clear_and_prepare_dir_def split: prod.splits sum.splits)
    from rmtree_cases[OF rm] obtain p where p: "resolve E t = Some p" "alter rmdir_all fs p = Some fs1"
      by auto
    from makedirs_cases[OF mk] p have "makedirs_node fs1 p = Some fs0" by auto
    with alter_rmdir_all_gone[OF p(2)] p show ?thesis by blast
  next
    case nd: False
    with False assms have mk: "makedirs E t fs = (fs0, Inr u)"
      by (simp add: clear_and_prepare_dir_def)
    from makedirs_cases[OF mk] obtain p where p: "resolve E t = Some p" "makedirs_node fs p = Some fs0"
      by auto
    from False nd p(1) have "lookup fs p = None"
      by (cases "lookup fs p") (auto simp: isfile_def isdir_def split: node.splits)
    with p show ?thesis by blast
  qed
qed

lemma clear_mirrors:
  assumes "clear_and_prepare_dir E t fs = (fs0, Inr u)"
  shows "\<exists>T. resolve E t = Some T \<and> T \<noteq> [] \<and> mirrors S D fs0 T"
proof -
  from clear_fresh[OF assms] obtain fs1 T where T: "resolve E t = Some T"
    and mk: "makedirs_node fs1 T = Some fs0" and l: "lookup fs1 T = None" by blast
  from l have nT: "T \<noteq> []" by auto
  from makedirs_node_new[OF mk l] have d: "lookup fs0 T = Some (Dir [])" .
  have "mirrors S D fs0 T"
    unfolding mirrors_def
  proof (intro conjI allI impI)
    fix q assume "prefix q T"
    with makedirs_node_stat[OF mk, of q] show "stat fs0 q = Some KDir" by simp
  next
    fix r :: "string list" assume "r \<noteq> []"
    then obtain c cs where "r = c # cs" by (cases r) auto
    with d have "stat fs0 (T @ r) = None" by (simp add: stat_def lookup_append)
    then show "case stat fs0 (T @ r) of None \<Rightarrow> True
        | Some KDir \<Rightarrow> stat S (D @ r) = Some KDir
        | Some (KFile rd c) \<Rightarrow> rd \<and> stat S (D @ r) = Some (KFile True c)" by simp
  qed
  with T nT show ?thesis by blast
qed

lemma ready_token_files:
  assumes D: "resolve E directory = Some D" and ready: "token_store_ready E fs directory"
  shows "\<exists>r1 c1 r2 c2. lookup fs (D @ [OAUTH1_TOKEN_FILENAME]) = Some (File r1 c1)
     \<and> lookup fs (D @ [OAUTH2_TOKEN_FILENAME]) = Some (File r2 c2)"
proof -
  from D have r: "resolve E (path_join directory OAUTH1_TOKEN_FILENAME) = Some (D @ [OAUTH1_TOKEN_FILENAME])"
    "resolve E (path_join directory OAUTH2_TOKEN_FILENAME) = Some (D @ [OAUTH2_TOKEN_FILENAME])"
    by (simp_all add: resolve_path_join)
  from ready show ?thesis
    by (auto simp: token_store_ready_def isfile_def r split: option.splits node.splits)
qed

lemma token_member:
  assumes ms: "\<forall>m \<in> set ms. \<exists>r c. m = ZMember (sep_join r) (Data c) \<and> r \<noteq> [] \<and> list_all valid_name r
             \<and> is_file_at fs' (T @ r)"
    and inv: "mirrors S D fs' T"
    and mem: "ZMember name (Data c) \<in> set ms" and name: "valid_name name"
    and S: "lookup S (D @ [name]) = Some (File True c)"
  shows "stat fs' (T @ [name]) = Some (KFile True c)"
proof -
  from ms mem obtain r c' where r: "name = sep_join r" "r \<noteq> []" "list_all valid_name r"
    "is_file_at fs' (T @ r)" by fastforce
  have "split_sep (sep_join r) = r"
    using r(2,3) by (intro split_sep_sep_join) (auto simp: list_all_iff valid_name_def)
  moreover have "split_sep name = [name]"
    using name by (simp add: split_sep_single valid_name_def)
  ultimately have "r = [name]" using r(1) by simp
  with r(4) obtain rd c'' where f: "stat fs' (T @ [name]) = Some (KFile rd c'')"
    by (auto simp: is_file_at_def)
  from mirrors_entry[OF inv _ f] S show ?thesis using f by (simp add: stat_def)
qed

lemma unzip_env_fields [simp]:
  "cwd (unzip_env a) = cwd base_env" "json_loads (unzip_env a) = json_loads base_env"
  "json_dumps (unzip_env a) = json_dumps base_env"
  "zip_local (unzip_env a) = zip_local base_env" "zip_central (unzip_env a) = zip_central base_env"
  "b64encode (unzip_env a) = b64encode base_env" "b64decode (unzip_env a) = b64decode base_env"
  "file_time (unzip_env a) = file_time base_env" "file_mode (unzip_env a) = file_mode base_env"
  "zip_open (unzip_env a) (archive_bytes base_env a) = Inr (map stored a)"
  by (simp_all add: unzip_env_def)

lemma abspath_unzip_env [simp]: "abspath (unzip_env a) = abspath base_env"
  by (rule ext) (simp add: abspath_def getcwd_def)

lemma resolve_unzip_env [simp]: "resolve (unzip_env a) = resolve base_env"
  by (rule ext) (simp add: resolve_def)

lemma central_directory_unzip_env:
  "central_directory (unzip_env a) k ms = central_directory base_env k ms"
  by (induction ms arbitrary: k) simp_all

lemma archive_bytes_unzip_env: "archive_bytes (unzip_env a) ms = archive_bytes base_env ms"
  by (simp add: archive_bytes_def central_directory_unzip_env)

lemma relpath_unzip_env: "relpath (unzip_env a) = relpath base_env"
  by (intro ext) (simp add: relpath_def)

lemma archive_write_unzip_env: "archive_write (unzip_env a) = archive_write base_env"
  by (intro ext) (simp add: archive_write_def Let_def split: option.splits)

lemma add_files_unzip_env: "add_files (unzip_env a) fs d root fl = add_files base_env fs d root fl"
  by (induction fl) (simp_all add: relpath_unzip_env archive_write_unzip_env Let_def split: sum.splits)

lemma add_walk_unzip_env: "add_walk (unzip_env a) fs d w = add_walk base_env fs d w"
proof (induction w)
  case Nil
  then show ?case by simp
next
  case (Cons x w)
  obtain root dirs files where "x = (root, dirs, files)" by (cases x)
  with Cons show ?case by (simp add: add_files_unzip_env split: sum.splits)
qed

lemma os_walk_unzip_env: "os_walk (unzip_env a) = os_walk base_env"
  by (intro ext) (simp add: os_walk_def)

lemma resolve_copy: "resolve base_env ''copy'' = Some [''work'', ''copy'']"
  by (simp add: path_eval)

lemma abspath_copy: "abspath base_env ''copy'' = ''/work/copy''"
  by (simp add: path_eval)

lemma resolve_tokens:
  "resolve base_env ''store/oauth1_token.json'' = Some [''work'', ''store'', ''oauth1_token.json'']"
  "resolve base_env ''store/oauth2_token.json'' = Some [''work'', ''store'', ''oauth2_token.json'']"
  by (simp_all add: path_eval)

lemma relpath_tokens:
  "relpath base_env ''store/oauth1_token.json'' ''store'' = Inr ''oauth1_token.json''"
  "relpath base_env ''store/oauth2_token.json'' ''store'' = Inr ''oauth2_token.json''"
  by (simp_all add: relpath_def path_eval path_join_list_def)

lemma zip_arcname_tokens:
  "zip_arcname ''oauth1_token.json'' = ''oauth1_token.json''"
  "zip_arcname ''oauth2_token.json'' = ''oauth2_token.json''"
  by (simp_all add: zip_arcname_def path_eval)

lemma joins_tokens:
  "path_join ''store'' ''oauth1_token.json'' = ''store/oauth1_token.json''"
  "path_join ''store'' ''oauth2_token.json'' = ''store/oauth2_token.json''"
  "path_join ''store'' ''sub'' = ''store/sub''"
  by (simp_all add: path_join_def suffix_to_prefix)

lemma archive_write_tokens:
  assumes "lookup fs [''work'', ''store'', ''oauth1_token.json''] = Some (File True c1)"
    and "lookup fs [''work'', ''store'', ''oauth2_token.json''] = Some (File True c2)"
  shows "archive_write base_env fs ''store/oauth1_token.json'' ''oauth1_token.json''
      = Inr (sample_info ''oauth1_token.json'' c1)"
    and "archive_write base_env fs ''store/oauth2_token.json'' ''oauth2_token.json''
      = Inr (sample_info ''oauth2_token.json'' c2)"
  using archive_write_sample[OF resolve_tokens(1) assms(1), of "''oauth1_token.json''"]
    archive_write_sample[OF resolve_tokens(2) assms(2), of "''oauth2_token.json''"]
  by (simp_all add: zip_arcname_tokens)

lemma sort_tokens:
  "sort [''oauth1_token.json'', ''oauth2_token.json''] = [''oauth1_token.json'', ''oauth2_token.json'']"
  by simp

lemma lookup_listed_12:
  "lookup listed_12 [''work'', ''store'', ''oauth1_token.json''] = Some (File True oauth1_text)"
  "lookup listed_12 [''work'', ''store'', ''oauth2_token.json''] = Some (File True oauth2_text)"
  by (simp_all add: listed_12_def)

lemma walk_listed_12:
  "os_walk base_env listed_12 ''store''
     = [(''store'', [''sub''], [''oauth1_token.json'', ''oauth2_token.json'']), (''store/sub'', [], [])]"
  by (simp add: os_walk_def resolve_store listed_12_def joins_tokens)

lemma members_listed_12:
  "add_walk base_env listed_12 ''store'' (os_walk base_env listed_12 ''store'') = Inr token_infos"
  unfolding walk_listed_12
  by (simp add: sort_tokens joins_tokens relpath_tokens archive_write_tokens[OF lookup_listed_12]
      token_infos_def Let_def)

lemma ready_listed_12: "token_store_ready (unzip_env a) listed_12 ''store''"
  by (simp add: token_store_ready_def isfile_def token_paths_store resolve_tokens listed_12_def)

lemma working_directory_sample:
  "stat fs [''work''] = Some KDir \<Longrightarrow> working_directory (unzip_env a) fs"
  by (simp add: working_directory_def base_env_def valid_name_def)

lemma plain_path_samples: "plain_path ''store''" "plain_path ''copy''"
  by (simp_all add: plain_path_def valid_name_def)

lemma ascii_tokens:
  "\<forall>c \<in> set ''oauth1_token.json''. of_char c < (128::nat)"
  "\<forall>c \<in> set ''oauth2_token.json''. of_char c < (128::nat)"
  by simp_all

lemma portable_listed_12: "portable_store (unzip_env a) listed_12 ''store'' ''copy''"
proof -
  have t: "file_time base_env p = (2024, 5, 17, 9, 30, 0)" for p by (simp add: base_env_def)
  show ?thesis
    by (simp add: portable_store_def resolve_store listed_12_def archivable_def within_limits_def
        backslash_def year_def t utf8_ascii[OF ascii_tokens(1)] utf8_ascii[OF ascii_tokens(2)]
        abspath_copy)
qed

lemma clear_copy:
  "clear_and_prepare_dir (unzip_env a) ''copy'' listed_12
     = (Dir [(''work'', Dir [(''store'', Dir [(''oauth1_token.json'', File True oauth1_text),
          (''oauth2_token.json'', File True oauth2_text), (''sub'', Dir [])]), (''copy'', Dir [])])], Inr ())"
  by (simp add: clear_and_prepare_dir_def isfile_def isdir_def makedirs_def resolve_copy listed_12_def)

lemma b64_base_env: "b64decode (unzip_env a) (b64encode (unzip_env a) x) = Inr x"
  by (simp add: base_env_def)

lemma dotted_paths:
  "resolve base_env (path_join ''store'' dotted_name) = Some [''work'', ''store'', dotted_name]"
  "relpath base_env (path_join ''store'' dotted_name) ''store'' = Inr dotted_name"
  "zip_arcname dotted_name = dotted_name"
  by (simp_all add: relpath_def zip_arcname_def path_eval path_join_list_def dotted_name_def)

lemma sort_dotted:
  "sort [dotted_name, ''oauth1_token.json'', ''oauth2_token.json'']
     = [dotted_name, ''oauth1_token.json'', ''oauth2_token.json'']"
  by (simp add: dotted_name_def)

lemma walk_dotted:
  "os_walk base_env dotted_store ''store''
     = [(''store'', [], [dotted_name, ''oauth1_token.json'', ''oauth2_token.json''])]"
  by (simp add: os_walk_def resolve_store dotted_store_def)

lemma lookup_dotted:
  "lookup dotted_store [''work'', ''store'', dotted_name] = Some (File True ''x'')"
  "lookup dotted_store [''work'', ''store'', ''oauth1_token.json''] = Some (File True oauth1_text)"
  "lookup dotted_store [''work'', ''store'', ''oauth2_token.json''] = Some (File True oauth2_text)"
  by (simp_all add: dotted_store_def dotted_name_def)

lemma archive_write_dotted:
  "archive_write base_env dotted_store (path_join ''store'' dotted_name) dotted_name
     = Inr (sample_info dotted_name ''x'')"
proof -
  have "\<forall>c \<in> set dotted_name. of_char c < (128::nat)" "length dotted_name \<le> 65535"
    by (simp_all add: dotted_name_def)
  with archive_write_sample[OF dotted_paths(1) lookup_dotted(1), of dotted_name]
  show ?thesis by (simp add: dotted_paths(3))
qed

lemma members_dotted:
  "add_walk base_env dotted_store ''store'' (os_walk base_env dotted_store ''store'') = Inr dotted_infos"
  unfolding walk_dotted
  by (simp add: sort_dotted dotted_paths joins_tokens relpath_tokens archive_write_dotted
      archive_write_tokens[OF lookup_dotted(2,3)] dotted_infos_def Let_def del: sort_key_simps)

lemma clear_copy_dotted:
  "clear_and_prepare_dir (unzip_env a) ''copy'' dotted_store = (dotted_cleared, Inr ())"
  by (simp add: clear_and_prepare_dir_def isfile_def isdir_def makedirs_def resolve_copy
      dotted_store_def dotted_cleared_def dotted_name_def)

lemma extract_dotted:
  "safe_extract_zip (unzip_env a) (map stored dotted_infos) ''copy'' fs
     = (fs, Inl (unsafe_entry dotted_name))"
  by (simp add: safe_extract_zip_def dotted_infos_def stored_def sample_info_def extract_member_def
      normalize_name_def backslash_def dotted_name_def)
section \<open>Clearing a target given by a path in normal form\<close>

lemma plain_path_place:
  assumes "plain_path t" "resolve E t = Some T"
  shows "T \<noteq> []"
proof -
  from assms(2) have t: "t \<noteq> []" and T: "T = abs_comps (rooted_form E t)"
    by (auto simp: resolve_eq split: if_splits)
  obtain c rest where s: "split_sep t = c # rest" by (cases "split_sep t") auto
  show ?thesis
  proof (cases "c = []")
    case True
    with assms(1) s have rest: "rest \<noteq> []" "list_all valid_name rest"
      by (simp_all add: plain_path_def)
    from t obtain x xs where x: "t = x # xs" by (cases t) auto
    have "x = CHR ''/''"
    proof (rule ccontr)
      assume "x \<noteq> CHR ''/''"
      with x s True show False by (auto split: list.splits)
    qed
    with x have "rooted_form E t = t" by (simp add: rooted_form_def)
    with T s True have "T = foldl (norm_step True) (norm_step True [] []) rest"
      by (simp add: abs_comps_def)
    also have "\<dots> = rest" using foldl_norm_step_clean[OF rest(2), of True "[]"]
      by (simp add: norm_step_def)
    finally show ?thesis using rest(1) by simp
  next
    case False
    with assms(1) s have v: "list_all valid_name (c # rest)" by (simp add: plain_path_def)
    from t obtain x xs where x: "t = x # xs" by (cases t) auto
    have "x \<noteq> CHR ''/''"
    proof
      assume "x = CHR ''/''"
      with x s False show False by simp
    qed
    with x have np: "\<not> prefix ''/'' t" by simp
    have "\<exists>z. rooted_form E t = z @ CHR ''/'' # t"
    proof (cases "suffix ''/'' (getcwd E)")
      case True
      then obtain z where "getcwd E = z @ ''/''" by (auto simp: suffix_def)
      with np True show ?thesis by (simp add: rooted_form_def path_join_def)
    next
      case nosuffix: False
      with np show ?thesis by (simp add: rooted_form_def path_join_def getcwd_def)
    qed
    then obtain z where "rooted_form E t = z @ CHR ''/'' # t" by blast
    with T s have "T = foldl (norm_step True) (foldl (norm_step True) [] (split_sep z)) (c # rest)"
      by (simp add: abs_comps_def split_sep_append_sep)
    also have "\<dots> = foldl (norm_step True) [] (split_sep z) @ (c # rest)"
      by (rule foldl_norm_step_clean[OF v])
    finally show ?thesis by simp
  qed
qed

lemma parent_is_directory:
  assumes "lookup fs T = Some n" "T \<noteq> []"
  shows "\<exists>es. lookup fs (butlast T) = Some (Dir es)"
proof -
  from assms(2) have "T = butlast T @ last T # []" by simp
  with assms(1) lookup_below_Dir[of fs "butlast T" "last T" "[]" n] show ?thesis by simp
qed

lemma clear_plain_target:
  assumes T: "resolve E t = Some T" "T \<noteq> []"
    and anc: "\<And>q. strict_prefix q T \<Longrightarrow> stat fs q = None \<or> stat fs q = Some KDir"
  shows "\<exists>fs0. clear_and_prepare_dir E t fs = (fs0, Inr ())
     \<and> lookup fs0 T = Some (Dir [])
     \<and> (\<forall>q. \<not> prefix T q \<longrightarrow> stat fs0 q = (if prefix q T then Some KDir else stat fs q))"
proof -
  have fresh: "\<exists>fs0. makedirs_node fs1 T = Some fs0 \<and> lookup fs0 T = Some (Dir [])
      \<and> (\<forall>q. \<not> prefix T q \<longrightarrow> stat fs0 q = (if prefix q T then Some KDir else stat fs q))"
    if gone: "lookup fs1 T = None" and same: "\<And>q. \<not> prefix T q \<Longrightarrow> stat fs1 q = stat fs q" for fs1
  proof -
    have "stat fs1 q = None \<or> stat fs1 q = Some KDir" if q: "prefix q T" for q
    proof (cases "q = T")
      case True
      with gone show ?thesis by (simp add: stat_def)
    next
      case False
      with q have sp: "strict_prefix q T" by (simp add: strict_prefix_def)
      then have "\<not> prefix T q" by (auto simp: strict_prefix_def)
      with same[of q] anc[OF sp] show ?thesis by simp
    qed
    from makedirs_node_succeeds[of T fs1, OF this] obtain fs0 where
      mk: "makedirs_node fs1 T = Some fs0" by blast
    from makedirs_node_new[OF mk gone] makedirs_node_stat[OF mk] same mk show ?thesis by auto
  qed
  show ?thesis
  proof (cases "lookup fs T")
    case None
    with T have "\<not> isfile E fs t" "\<not> isdir E fs t" by (simp_all add: isfile_def isdir_def)
    moreover from fresh[of fs, OF None] obtain fs0 where
      "makedirs_node fs T = Some fs0" "lookup fs0 T = Some (Dir [])"
      "\<forall>q. \<not> prefix T q \<longrightarrow> stat fs0 q = (if prefix q T then Some KDir else stat fs q)" by auto
    ultimately show ?thesis using T by (simp add: clear_and_prepare_dir_def makedirs_def)
  next
    case (Some n)
    from parent_is_directory[OF Some T(2)] obtain es where
      par: "lookup fs (butlast T) = Some (Dir es)" by blast
    show ?thesis
    proof (cases n)
      case (File r d)
      with Some T have i: "isfile E fs t" by (simp add: isfile_def)
      from alter_succeeds[OF par T(2), of unlink] Some File obtain fs1 where
        rm: "alter unlink fs T = Some fs1" by auto
      from alter_unlink_stat[OF rm] have same: "\<And>q. \<not> prefix T q \<Longrightarrow> stat fs1 q = stat fs q"
        by auto
      from fresh[OF alter_unlink_gone[OF rm] same] obtain fs0 where
        "makedirs_node fs1 T = Some fs0" "lookup fs0 T = Some (Dir [])"
        "\<forall>q. \<not> prefix T q \<longrightarrow> stat fs0 q = (if prefix q T then Some KDir else stat fs q)" by auto
      with i rm T show ?thesis
        by (simp add: clear_and_prepare_dir_def os_remove_def makedirs_def)
    next
      case (Dir sub)
      with Some T have i: "\<not> isfile E fs t" "isdir E fs t" by (simp_all add: isfile_def isdir_def)
      from alter_succeeds[OF par T(2), of rmdir_all] Some Dir obtain fs1 where
        rm: "alter rmdir_all fs T = Some fs1" by auto
      from alter_rmdir_all_stat[OF rm] have same: "\<And>q. \<not> prefix T q \<Longrightarrow> stat fs1 q = stat fs q"
        by auto
      from fresh[OF alter_rmdir_all_gone[OF rm] same] obtain fs0 where
        "makedirs_node fs1 T = Some fs0" "lookup fs0 T = Some (Dir [])"
        "\<forall>q. \<not> prefix T q \<longrightarrow> stat fs0 q = (if prefix q T then Some KDir else stat fs q)" by auto
      with i rm T show ?thesis
        by (simp add: clear_and_prepare_dir_def rmtree_def makedirs_def)
    qed
  qed
qed

lemma clear_plain_store:
  "clear_and_prepare_dir base_env ''plain'' used_store
     = (Dir [(''work'', Dir [(''store'', Dir [(''stale.txt'', File True ''old'')]), (''plain'', Dir [])])],
        Inr ())"
  by (simp add: clear_and_prepare_dir_def isfile_def isdir_def os_remove_def makedirs_def path_eval
      used_store_def)

lemma clear_below_file:
  assumes T: "resolve E t = Some T"
    and q: "strict_prefix q T" "stat fs q = Some (KFile r d)"
  shows "clear_and_prepare_dir E t fs = (fs, Inl OSError)"
proof -
  from q(1) obtain c cs where Tq: "T = q @ c # cs"
    by (auto simp: strict_prefix_def prefix_def) (metis neq_Nil_conv)
  from q(2) have f: "lookup fs q = Some (File r d)"
    by (cases "lookup fs q") (auto simp: stat_def elim: kind_of.elims)
  then have none: "lookup fs T = None" by (simp add: Tq lookup_append)
  have "makedirs_node fs T = None"
  proof (cases "makedirs_node fs T")
    case (Some fs')
    from q(1) have "prefix q T" by (simp add: strict_prefix_def)
    from makedirs_node_pre[OF Some this] q(2) show ?thesis by simp
  qed simp
  with none T show ?thesis
    by (simp add: clear_and_prepare_dir_def isfile_def isdir_def makedirs_def)
qed

section \<open>The claims\<close>

text \<open>
  Claim C1, as amended. An entry that \<^verbatim>\<open>_safe_extract_zip\<close> rejects (by one of the
  four conditions on its normalized name, or by its destination) is never written: the
  extraction of an archive that contains it is the extraction of the entries before it,
  and if they were extracted without error, the error of an unsafe entry is raised in
  the state they left, before anything is written for the entry or for a later one; if an
  earlier entry raised, that error is the outcome. Whatever the bytes and whether it
  returns or raises, \<open>write_token_store_bytes\<close> leaves every regular file that is not
  at or below the target directory as it was, and creates none.
\<close>

theorem unsafe_entry_aborts_extraction_and_nothing_leaves_target:
  "(rejected E (abspath E t) m \<longrightarrow>
      safe_extract_zip E (pre @ m # post) t fs =
        (case safe_extract_zip E pre t fs of
           (fs1, Inl e) \<Rightarrow> (fs1, Inl e)
         | (fs1, Inr u) \<Rightarrow> (fs1, Inl (unsafe_entry (zname m)))))
   \<and> (\<forall>q. \<not> prefix (path_comps (abspath E t)) q
         \<longrightarrow> file_at (fst (write_token_store_bytes E b t fs')) q = file_at fs' q)"
proof (intro conjI impI allI)
  assume "rejected E (abspath E t) m"
  then show "safe_extract_zip E (pre @ m # post) t fs =
        (case safe_extract_zip E pre t fs of
           (fs1, Inl e) \<Rightarrow> (fs1, Inl e)
         | (fs1, Inr u) \<Rightarrow> (fs1, Inl (unsafe_entry (zname m))))"
    by (simp add: safe_extract_zip_def extract_members_append extract_member_rejected
        split: prod.splits sum.splits)
next
  fix q assume "\<not> prefix (path_comps (abspath E t)) q"
  then show "file_at (fst (write_token_store_bytes E b t fs')) q = file_at fs' q"
    using write_file_at[of E b t fs' "fst (write_token_store_bytes E b t fs')"
        "snd (write_token_store_bytes E b t fs')" q] by simp
qed

theorem unsafe_entry_aborts_extraction_and_nothing_leaves_target_witness:
  "rejected (zip_env evil_archive) (abspath (zip_env evil_archive) ''store'')
     (ZMember ''../evil.txt'' (Data ''blocked''))
   \<and> safe_extract_zip (zip_env evil_archive) evil_archive ''store'' prepared_work
       = (prepared_work, Inl (unsafe_entry ''../evil.txt''))
   \<and> file_at (fst (write_token_store_bytes (zip_env evil_archive) (zipfile_bytes base_env evil_archive)
         ''store'' empty_work)) [''work'', ''evil.txt''] = None"
proof -
  have p: "\<not> prefix (path_comps (abspath (zip_env evil_archive) ''store'')) [''work'', ''evil.txt'']"
    by (simp add: abspath_store path_comps_def)
  from unsafe_entry_aborts_extraction_and_nothing_leaves_target[of "zip_env evil_archive" "''store''"
      "ZMember ''../evil.txt'' (Data ''blocked'')" "[]" "[]" prepared_work
      "zipfile_bytes base_env evil_archive" empty_work] p rejected_evil
  show ?thesis
    by (simp add: evil_archive_def safe_extract_zip_def file_at_def empty_work_def)
qed

text \<open>
  Claim C1 as stated fails: in an archive with the entries \<open>a\<close>, \<open>a/b\<close> and
  \<open>../evil.txt\<close>, creating the directory for \<open>a/b\<close> fails on the regular file \<open>a\<close>,
  so the call raises \<open>OSError\<close> and not the error of the unsafe entry.
\<close>

theorem earlier_failure_preempts_unsafe_entry_counterexample:
  "ZMember ''../evil.txt'' (Data ''blocked'') \<in> set clash_archive
   \<and> rejected (zip_env clash_archive) (abspath (zip_env clash_archive) ''store'')
       (ZMember ''../evil.txt'' (Data ''blocked''))
   \<and> zip_open (zip_env clash_archive) (zipfile_bytes base_env clash_archive) = Inr clash_archive
   \<and> write_token_store_bytes (zip_env clash_archive) (zipfile_bytes base_env clash_archive) ''store'' empty_work
       = (Dir [(''work'', Dir [(''store'', Dir [(''a'', File True ''x'')])])], Inl OSError)
   \<and> OSError \<noteq> unsafe_entry ''../evil.txt''"
proof -
  have c: "clear_and_prepare_dir (zip_env clash_archive) ''store'' empty_work = (prepared_work, Inr ())"
    by (simp add: clear_and_prepare_dir_def isfile_def isdir_def makedirs_def resolve_store
      empty_work_def prepared_work_def)
  have a: "abspath base_env ''/work/store/a'' = ''/work/store/a''"
    "abspath base_env ''/work/store/a/b'' = ''/work/store/a/b''"
    "resolve base_env ''/work/store'' = Some [''work'', ''store'']"
    "resolve base_env ''/work/store/a'' = Some [''work'', ''store'', ''a'']"
    by (simp_all add: path_eval)
  have d: "dirname ''/work/store/a'' = ''/work/store''" "dirname ''/work/store/a/b'' = ''/work/store/a''"
    by (simp_all add: dirname_def)
  have x: "safe_extract_zip (zip_env clash_archive) clash_archive ''store'' prepared_work
     = (Dir [(''work'', Dir [(''store'', Dir [(''a'', File True ''x'')])])], Inl OSError)"
    by (simp add: safe_extract_zip_def abspath_store clash_archive_def extract_member_def
        normalize_name_def backslash_def path_join_def suffix_to_prefix a d is_dir_def makedirs_def
        copy_member_def write_file_def prepared_work_def sublist_code Let_def)
  from c x show ?thesis
    by (simp add: write_token_store_bytes_def try_extract_def rejected_evil unsafe_entry_def)
      (simp add: clash_archive_def)
qed

text \<open>
  Claim C2, as amended. A well-formed file system with the working directory in it; a
  source directory and a target given by paths in normal form; the source a ready token
  store every entry of which the encoder can archive (no backslash in a name, regular files
  readable, modified between 1980 and 2107, UTF-8 names, within the path limits of the
  operating system); a base64 codec and a zip reader that invert the encoder's writer; a
  target that \<open>clear_and_prepare_dir\<close> can prepare (a fresh one, for instance).
  Then encoding the directory, decoding the result and writing the bytes to the target
  succeed, the target is a ready token store, and each of its two token files has the
  content of the original.
\<close>

theorem round_trip_restores_token_files:
  assumes wf: "well_formed fs"
    and wd: "working_directory E fs"
    and paths: "plain_path directory" "plain_path target"
    and ready: "token_store_ready E fs directory"
    and portable: "portable_store E fs directory target"
    and b64: "\<And>x. b64decode E (b64encode E x) = Inr x"
    and zip: "\<And>members. add_walk E fs directory (os_walk E fs directory) = Inr members
        \<Longrightarrow> zip_open E (archive_bytes E members) = Inr (map stored members)"
    and clear: "clear_and_prepare_dir E target fs = (fs0, Inr u)"
  shows "\<exists>encoded token_bytes fs'.
      encode_token_store_dir_as_zip_b64 E fs directory = Inr encoded
    \<and> decode_token_store_b64 E encoded = Inr token_bytes
    \<and> write_token_store_bytes E token_bytes target fs = (fs', Inr target)
    \<and> token_store_ready E fs' target
    \<and> read_file E fs (path_join directory OAUTH1_TOKEN_FILENAME) \<noteq> None
    \<and> read_file E fs' (path_join target OAUTH1_TOKEN_FILENAME)
        = read_file E fs (path_join directory OAUTH1_TOKEN_FILENAME)
    \<and> read_file E fs (path_join directory OAUTH2_TOKEN_FILENAME) \<noteq> None
    \<and> read_file E fs' (path_join target OAUTH2_TOKEN_FILENAME)
        = read_file E fs (path_join directory OAUTH2_TOKEN_FILENAME)"
proof -
  from portable obtain D n where D: "resolve E directory = Some D" and n: "lookup fs D = Some n"
    and pn: "every_below (\<lambda>r m. archivable E D r m \<and> within_limits directory (abspath E target) r) [] n"
    by (auto simp: portable_store_def split: option.splits)
  from every_below_mono[of _ "archivable E D", OF _ pn]
  have ar: "every_below (archivable E D) [] n" by simp
  from well_formed_lookup[OF wf n] have wfn: "well_formed n" .
  from ready_token_files[OF D ready] obtain r1 c1 r2 c2 where
    f: "lookup fs (D @ [OAUTH1_TOKEN_FILENAME]) = Some (File r1 c1)"
       "lookup fs (D @ [OAUTH2_TOKEN_FILENAME]) = Some (File r2 c2)" by blast
  from f(1) n obtain es where es: "n = Dir es"
    by (cases n) (auto simp: lookup_append)
  from f n es have m: "map_of es OAUTH1_TOKEN_FILENAME = Some (File r1 c1)"
    "map_of es OAUTH2_TOKEN_FILENAME = Some (File r2 c2)"
    by (auto simp: lookup_append split: option.splits)
  from ar es map_of_SomeD[OF m(1)] map_of_SomeD[OF m(2)] have "r1" "r2"
    by (auto simp: every_below_in_iff archivable_def)
  with m f have m': "map_of es OAUTH1_TOKEN_FILENAME = Some (File True c1)"
    "map_of es OAUTH2_TOKEN_FILENAME = Some (File True c2)"
    and f': "lookup fs (D @ [OAUTH1_TOKEN_FILENAME]) = Some (File True c1)"
       "lookup fs (D @ [OAUTH2_TOKEN_FILENAME]) = Some (File True c2)" by simp_all
  from n have "stat fs D = Some KDir" by (simp add: stat_def es)
  with f' have src: "store_state fs D (Some c1) (Some c2)" by (simp add: store_state_def stat_def)
  from walk_members[OF D, of directory "[]" fs n] D n wfn ar obtain ms where
    ms: "add_walk E fs directory (walk directory n) = Inr ms" "\<forall>m \<in> set ms. member_of fs D (stored m)"
      "\<forall>es name c. n = Dir es \<and> map_of es name = Some (File True c)
             \<longrightarrow> ZMember (sep_join ([] @ [name])) (Data c) \<in> stored ` set ms"
    by auto
  from ms(3) es m' have tm: "ZMember OAUTH1_TOKEN_FILENAME (Data c1) \<in> set (map stored ms)"
    "ZMember OAUTH2_TOKEN_FILENAME (Data c2) \<in> set (map stored ms)" by auto
  from ms(2) have mo: "\<forall>m \<in> set (map stored ms). member_of fs D m" by simp
  from D n have w: "os_walk E fs directory = walk directory n" by (simp add: os_walk_def)
  let ?bytes = "archive_bytes E ms"
  from ms(1) w have enc: "encode_token_store_dir_as_zip_b64 E fs directory = Inr (b64encode E ?bytes)"
    by (simp add: encode_token_store_dir_as_zip_b64_def archive_bytes_not_empty)
  have dec: "decode_token_store_b64 E (b64encode E ?bytes) = Inr ?bytes"
    by (simp add: decode_token_store_b64_def b64)
  from zip ms(1) w have op: "zip_open E ?bytes = Inr (map stored ms)" by simp
  from clear_mirrors[OF clear, of fs D] obtain T where T: "resolve E target = Some T" "T \<noteq> []"
    and inv0: "mirrors fs D fs0 T" by blast
  from extract_members_mirror[OF T inv0 mo] obtain fs' where
    ex: "extract_members E (abspath E target) (map stored ms) fs0 = (fs', Inr ())"
    and inv: "mirrors fs D fs' T"
    and files: "\<forall>m \<in> set (map stored ms). \<exists>r c. m = ZMember (sep_join r) (Data c) \<and> r \<noteq> []
        \<and> list_all valid_name r \<and> is_file_at fs' (T @ r)" by blast
  from clear op ex have wr: "write_token_store_bytes E ?bytes target fs = (fs', Inr target)"
    by (simp add: write_token_store_bytes_def try_extract_def safe_extract_zip_def)
  from inv have "stat fs' T = Some KDir" by (simp add: mirrors_def)
  with token_member[OF files inv tm(1) _ f'(1)] token_member[OF files inv tm(2) _ f'(2)]
  have dst: "store_state fs' T (Some c1) (Some c2)" by (simp add: store_state_def)
  note a = store_state_read[OF src D] and b = store_state_read[OF dst T(1)]
  from enc dec wr a b show ?thesis by simp
qed

theorem round_trip_restores_token_files_witness:
  "well_formed listed_12 \<and> working_directory (unzip_env token_infos) listed_12
   \<and> plain_path ''store'' \<and> plain_path ''copy''
   \<and> token_store_ready (unzip_env token_infos) listed_12 ''store''
   \<and> portable_store (unzip_env token_infos) listed_12 ''store'' ''copy''
   \<and> (\<exists>encoded token_bytes fs'.
      encode_token_store_dir_as_zip_b64 (unzip_env token_infos) listed_12 ''store'' = Inr encoded
    \<and> decode_token_store_b64 (unzip_env token_infos) encoded = Inr token_bytes
    \<and> write_token_store_bytes (unzip_env token_infos) token_bytes ''copy'' listed_12 = (fs', Inr ''copy'')
    \<and> token_store_ready (unzip_env token_infos) fs' ''copy''
    \<and> read_file (unzip_env token_infos) fs' ''copy/oauth1_token.json'' = Some oauth1_text
    \<and> read_file (unzip_env token_infos) fs' ''copy/oauth2_token.json'' = Some oauth2_text)"
proof -
  let ?E = "unzip_env token_infos"
  have z: "zip_open ?E (archive_bytes ?E ms) = Inr (map stored ms)"
    if "add_walk ?E listed_12 ''store'' (os_walk ?E listed_12 ''store'') = Inr ms" for ms
  proof -
    from that members_listed_12 have "ms = token_infos"
      by (simp add: add_walk_unzip_env os_walk_unzip_env)
    then show ?thesis by (simp add: archive_bytes_unzip_env)
  qed
  have wd: "working_directory ?E listed_12"
    by (rule working_directory_sample) (simp add: stat_def listed_12_def)
  have r: "read_file ?E listed_12 ''store/oauth1_token.json'' = Some oauth1_text"
    "read_file ?E listed_12 ''store/oauth2_token.json'' = Some oauth2_text"
    by (simp_all add: read_file_def resolve_tokens listed_12_def)
  have j: "path_join ''copy'' OAUTH1_TOKEN_FILENAME = ''copy/oauth1_token.json''"
    "path_join ''copy'' OAUTH2_TOKEN_FILENAME = ''copy/oauth2_token.json''"
    by (simp_all add: path_join_def OAUTH1_TOKEN_FILENAME_def OAUTH2_TOKEN_FILENAME_def suffix_to_prefix)
  from round_trip_restores_token_files[of listed_12 ?E "''store''" "''copy''", OF well_formed_listed(2)
      wd plain_path_samples ready_listed_12 portable_listed_12 b64_base_env z clear_copy]
  show ?thesis
    using well_formed_listed(2) wd plain_path_samples ready_listed_12[of token_infos]
      portable_listed_12[of token_infos]
    by (simp add: token_paths_store j r)
qed

text \<open>
  Claim C2 as stated fails: a ready directory that also holds a file named \<open>..\<close>,
  backslash, \<open>x\<close> is archived under that name; on extraction the backslash is read as a
  separator, the entry is refused as unsafe, and the fresh target is left empty.
\<close>

theorem backslash_name_breaks_round_trip_counterexample:
  "well_formed dotted_store
   \<and> token_store_ready (unzip_env dotted_infos) dotted_store ''store''
   \<and> stat dotted_store [''work'', ''copy''] = None
   \<and> encode_token_store_dir_as_zip_b64 (unzip_env dotted_infos) dotted_store ''store''
       = Inr (b64encode base_env (archive_bytes base_env dotted_infos))
   \<and> decode_token_store_b64 (unzip_env dotted_infos) (b64encode base_env (archive_bytes base_env dotted_infos))
       = Inr (archive_bytes base_env dotted_infos)
   \<and> zip_open (unzip_env dotted_infos) (archive_bytes base_env dotted_infos) = Inr (map stored dotted_infos)
   \<and> write_token_store_bytes (unzip_env dotted_infos) (archive_bytes base_env dotted_infos)
         ''copy'' dotted_store
       = (dotted_cleared, Inl (unsafe_entry dotted_name))
   \<and> \<not> token_store_ready (unzip_env dotted_infos) dotted_cleared ''copy''"
proof -
  let ?E = "unzip_env dotted_infos"
  have 1: "well_formed dotted_store"
    by (simp add: dotted_store_def valid_name_def dotted_name_def)
  have 2: "token_store_ready ?E dotted_store ''store''"
    by (simp add: token_store_ready_def isfile_def token_paths_store resolve_tokens dotted_store_def
        dotted_name_def)
  have 3: "stat dotted_store [''work'', ''copy''] = None"
    by (simp add: stat_def dotted_store_def)
  have 4: "encode_token_store_dir_as_zip_b64 ?E dotted_store ''store''
       = Inr (b64encode base_env (archive_bytes base_env dotted_infos))"
    by (simp add: encode_token_store_dir_as_zip_b64_def add_walk_unzip_env os_walk_unzip_env
        members_dotted archive_bytes_unzip_env archive_bytes_not_empty)
  have 5: "decode_token_store_b64 ?E (b64encode base_env (archive_bytes base_env dotted_infos))
       = Inr (archive_bytes base_env dotted_infos)"
    using b64_base_env[of dotted_infos "archive_bytes base_env dotted_infos"]
    by (simp add: decode_token_store_b64_def)
  have 6: "write_token_store_bytes ?E (archive_bytes base_env dotted_infos) ''copy'' dotted_store
       = (dotted_cleared, Inl (unsafe_entry dotted_name))"
    by (simp add: write_token_store_bytes_def clear_copy_dotted try_extract_def extract_dotted
        unsafe_entry_def)
  have j: "path_join ''copy'' OAUTH1_TOKEN_FILENAME = ''copy/oauth1_token.json''"
    by (simp add: path_join_def OAUTH1_TOKEN_FILENAME_def suffix_to_prefix)
  have r: "resolve base_env ''copy/oauth1_token.json'' = Some [''work'', ''copy'', ''oauth1_token.json'']"
    by (simp add: path_eval)
  have 7: "\<not> token_store_ready ?E dotted_cleared ''copy''"
    by (simp add: token_store_ready_def isfile_def j r dotted_cleared_def dotted_name_def)
  from 1 2 3 4 5 6 7 show ?thesis by simp
qed

text \<open>
  Claim C3, as amended. Bytes that open as a zip archive all of whose members can be read
  without \<^verbatim>\<open>BadZipFile\<close>: the result of \<open>write_token_store_bytes\<close> is that of
  clearing the target and extracting the archive, whatever \<open>json_loads\<close> would say about
  the bytes; the legacy fallback is not run. Whenever the extraction of an opened archive
  raises the error of an unsafe entry, \<open>write_token_store_bytes\<close> raises that same error,
  in the state in which the extraction stopped. But when the extraction raises
  \<^verbatim>\<open>BadZipFile\<close> (a member that cannot be read), the except clause catches it and the
  call continues with the legacy fallback, in the state in which the extraction stopped.
\<close>

theorem valid_archive_never_reaches_legacy_fallback:
  assumes "zip_open E b = Inr archive"
  shows "(list_all member_intact archive \<longrightarrow>
       write_token_store_bytes E b t fs =
         (case clear_and_prepare_dir E t fs of
            (fs0, Inl e) \<Rightarrow> (fs0, Inl e)
          | (fs0, Inr u) \<Rightarrow>
              (case safe_extract_zip E archive t fs0 of
                 (fs1, Inl e) \<Rightarrow> (fs1, Inl e)
               | (fs1, Inr u) \<Rightarrow> (fs1, Inr t))))
     \<and> (\<forall>fs0 u fs1 name. clear_and_prepare_dir E t fs = (fs0, Inr u)
           \<and> safe_extract_zip E archive t fs0 = (fs1, Inl (unsafe_entry name))
         \<longrightarrow> write_token_store_bytes E b t fs = (fs1, Inl (unsafe_entry name)))
     \<and> (\<forall>fs0 u fs1. clear_and_prepare_dir E t fs = (fs0, Inr u)
           \<and> safe_extract_zip E archive t fs0 = (fs1, Inl BadZipFile)
         \<longrightarrow> write_token_store_bytes E b t fs =
              (case legacy_fallback E b t fs1 of
                 (fs2, Inl e) \<Rightarrow> (fs2, Inl e)
               | (fs2, Inr u) \<Rightarrow> (fs2, Inr t)))"
proof (intro conjI allI impI)
  assume i: "list_all member_intact archive"
  show "write_token_store_bytes E b t fs =
         (case clear_and_prepare_dir E t fs of
            (fs0, Inl e) \<Rightarrow> (fs0, Inl e)
          | (fs0, Inr u) \<Rightarrow>
              (case safe_extract_zip E archive t fs0 of
                 (fs1, Inl e) \<Rightarrow> (fs1, Inl e)
               | (fs1, Inr u) \<Rightarrow> (fs1, Inr t)))"
    using assms extract_members_intact[OF i]
    by (auto simp: write_token_store_bytes_def try_extract_def safe_extract_zip_def
        split: prod.splits sum.splits)
next
  fix fs0 u fs1 name
  assume "clear_and_prepare_dir E t fs = (fs0, Inr u)
     \<and> safe_extract_zip E archive t fs0 = (fs1, Inl (unsafe_entry name))"
  with assms show "write_token_store_bytes E b t fs = (fs1, Inl (unsafe_entry name))"
    by (simp add: write_token_store_bytes_def try_extract_def unsafe_entry_def)
next
  fix fs0 u fs1
  assume "clear_and_prepare_dir E t fs = (fs0, Inr u)
     \<and> safe_extract_zip E archive t fs0 = (fs1, Inl BadZipFile)"
  with assms show "write_token_store_bytes E b t fs =
      (case legacy_fallback E b t fs1 of
         (fs2, Inl e) \<Rightarrow> (fs2, Inl e)
       | (fs2, Inr u) \<Rightarrow> (fs2, Inr t))"
    by (simp add: write_token_store_bytes_def try_extract_def)
qed

theorem valid_archive_never_reaches_legacy_fallback_witness:
  "list_all member_intact evil_archive
   \<and> write_token_store_bytes (zip_env evil_archive) (zipfile_bytes base_env evil_archive) ''store'' empty_work
       = (prepared_work, Inl (unsafe_entry ''../evil.txt''))"
proof -
  have i: "list_all member_intact evil_archive"
    by (simp add: evil_archive_def member_intact_def)
  have c: "clear_and_prepare_dir (zip_env evil_archive) ''store'' empty_work = (prepared_work, Inr ())"
    by (simp add: clear_and_prepare_dir_def isfile_def isdir_def makedirs_def resolve_store
      empty_work_def prepared_work_def)
  from valid_archive_never_reaches_legacy_fallback[of "zip_env evil_archive"
      "zipfile_bytes base_env evil_archive" evil_archive "''store''" empty_work] i c extract_evil
  show ?thesis by simp
qed

text \<open>
  Claim C3 as stated fails: the archive opens, reading its first member raises
  \<^verbatim>\<open>BadZipFile\<close> (a bad CRC for instance) when its destination has been created
  and nothing written to it, and the call does not raise: the try block ends with
  \<open>extracted = False\<close>, the legacy fallback runs on the half-extracted store and the
  target path is returned. The unsafe entry that follows is never looked at.
\<close>

theorem unreadable_member_runs_legacy_fallback_counterexample:
  "zip_open (zip_env corrupt_archive) (zipfile_bytes base_env corrupt_archive) = Inr corrupt_archive
   \<and> clear_and_prepare_dir (zip_env corrupt_archive) ''store'' empty_work = (prepared_work, Inr ())
   \<and> safe_extract_zip (zip_env corrupt_archive) corrupt_archive ''store'' prepared_work
       = (half_store, Inl BadZipFile)
   \<and> try_extract (zip_env corrupt_archive) (zipfile_bytes base_env corrupt_archive) ''store'' prepared_work
       = (half_store, Inr False)
   \<and> legacy_fallback (zip_env corrupt_archive) (zipfile_bytes base_env corrupt_archive) ''store'' half_store
       = (half_store, Inr ())
   \<and> write_token_store_bytes (zip_env corrupt_archive) (zipfile_bytes base_env corrupt_archive)
         ''store'' empty_work
       = (half_store, Inr ''store'')"
proof -
  let ?E = "zip_env corrupt_archive" and ?b = "zipfile_bytes base_env corrupt_archive"
  have c: "clear_and_prepare_dir ?E ''store'' empty_work = (prepared_work, Inr ())"
    by (simp add: clear_and_prepare_dir_def isfile_def isdir_def makedirs_def resolve_store
      empty_work_def prepared_work_def)
  have t: "try_extract ?E ?b ''store'' prepared_work = (half_store, Inr False)"
    by (simp add: try_extract_def extract_corrupt)
  have j: "json_loads ?E ?b = None"
    using json_loads_zip_bytes by (simp add: corrupt_archive_def)
  then have l: "legacy_fallback ?E ?b ''store'' half_store = (half_store, Inr ())"
    by (simp add: legacy_fallback_def)
  from c t l show ?thesis
    by (simp add: write_token_store_bytes_def extract_corrupt)
qed
text \<open>
  Claim C4 describes what the check \<^verbatim>\<open>if not data\<close> is written for; the code does
  not do it. The bytes of a closed archive end with the 22-byte end-of-central-directory
  record, so they are never empty: the encoder never raises its error for an empty
  archive, and for an empty directory it returns the encoding of an archive without
  members.
\<close>

theorem encoder_never_reports_empty_archive:
  "encode_token_store_dir_as_zip_b64 E fs directory
       \<noteq> Inl (RuntimeError ''Generated Garmin token store archive was empty.'')
   \<and> (\<forall>p. resolve E directory = Some p \<and> lookup fs p = Some (Dir [])
        \<longrightarrow> encode_token_store_dir_as_zip_b64 E fs directory = Inr (b64encode E (end_record 0 0 0)))
   \<and> length (end_record 0 0 0) = 22"
proof (intro conjI allI impI)
  show "encode_token_store_dir_as_zip_b64 E fs directory
       \<noteq> Inl (RuntimeError ''Generated Garmin token store archive was empty.'')"
    using add_walk_not_runtime[of E fs directory "os_walk E fs directory"]
    by (auto simp: encode_token_store_dir_as_zip_b64_def Let_def archive_bytes_not_empty split: sum.splits)
next
  fix p assume "resolve E directory = Some p \<and> lookup fs p = Some (Dir [])"
  then have "add_walk E fs directory (os_walk E fs directory) = Inr []"
    by (simp add: os_walk_def)
  then show "encode_token_store_dir_as_zip_b64 E fs directory = Inr (b64encode E (end_record 0 0 0))"
    using archive_bytes_not_empty[of E "[]"]
    by (simp add: encode_token_store_dir_as_zip_b64_def Let_def archive_bytes_Nil)
next
  show "length (end_record 0 0 0) = 22" by (rule length_end_record)
qed

theorem encoder_never_reports_empty_archive_witness:
  "lookup prepared_work [''work'', ''store''] = Some (Dir [])
   \<and> encode_token_store_dir_as_zip_b64 base_env prepared_work ''store''
     = Inr (''b64:'' @ [CHR ''P'', CHR ''K'', CHR 0x05, CHR 0x06,
     CHR 0x00, CHR 0x00, CHR 0x00, CHR 0x00, CHR 0x00, CHR 0x00, CHR 0x00, CHR 0x00, CHR 0x00,
     CHR 0x00, CHR 0x00, CHR 0x00, CHR 0x00, CHR 0x00, CHR 0x00, CHR 0x00, CHR 0x00, CHR 0x00])"
proof -
  have l: "lookup prepared_work [''work'', ''store''] = Some (Dir [])"
    by (simp add: prepared_work_def)
  have b: "b64encode base_env x = ''b64:'' @ x" for x by (simp add: base_env_def)
  from encoder_never_reports_empty_archive[of base_env prepared_work "''store''"] resolve_store l
  show ?thesis by (simp add: end_record_empty b)
qed

text \<open>
  Claim C5. Bytes that are not a zip archive but parse as a JSON object with the top-level
  keys \<open>oauth_token\<close>, \<open>oauth_token_secret\<close> and \<open>access_token\<close>: once the target
  directory has been cleared and created (step 1 did not raise),
  \<open>write_token_store_bytes\<close> returns the target path, both token files hold the whole
  payload, and the store is ready.
\<close>

theorem flattened_payload_fills_both_files:
  assumes "zip_open E b = Inl BadZipFile"
    and "json_loads E b = Some (JObject payload)"
    and "map_of payload ''oauth_token'' \<noteq> None"
    and "map_of payload ''oauth_token_secret'' \<noteq> None"
    and "map_of payload ''access_token'' \<noteq> None"
    and "clear_and_prepare_dir E t fs = (fs0, Inr u)"
  shows "\<exists>fs'. write_token_store_bytes E b t fs = (fs', Inr t)
     \<and> read_file E fs' (path_join t OAUTH1_TOKEN_FILENAME) = Some (json_dumps E (JObject payload))
     \<and> read_file E fs' (path_join t OAUTH2_TOKEN_FILENAME) = Some (json_dumps E (JObject payload))
     \<and> token_store_ready E fs' t"
proof -
  from legacy_written[OF assms(1,2,6)] obtain fs' T where
    w: "write_token_store_bytes E b t fs = (fs', Inr t)" and T: "resolve E t = Some T"
    and s: "store_state fs' T
          (keys_text E [''oauth_token'', ''oauth_token_secret''] payload
             (dict_text E (map_of payload ''oauth1_token'') None))
          (keys_text E [''access_token''] payload
             (dict_text E (map_of payload ''oauth2_token'') None))" by blast
  from assms(3,4,5) have
    "keys_text E [''oauth_token'', ''oauth_token_secret''] payload
        (dict_text E (map_of payload ''oauth1_token'') None) = Some (json_dumps E (JObject payload))"
    "keys_text E [''access_token''] payload
        (dict_text E (map_of payload ''oauth2_token'') None) = Some (json_dumps E (JObject payload))"
    by (simp_all add: keys_text_def)
  with s have "store_state fs' T (Some (json_dumps E (JObject payload)))
      (Some (json_dumps E (JObject payload)))" by simp
  from store_state_read[OF this T] w show ?thesis by simp
qed

theorem flattened_payload_fills_both_files_witness:
  "\<exists>fs'. write_token_store_bytes base_env flat_text ''store'' empty_work = (fs', Inr ''store'')
     \<and> read_file base_env fs' (path_join ''store'' OAUTH1_TOKEN_FILENAME) = Some flat_text
     \<and> read_file base_env fs' (path_join ''store'' OAUTH2_TOKEN_FILENAME) = Some flat_text
     \<and> token_store_ready base_env fs' ''store''"
proof -
  have j: "json_loads base_env flat_text = Some (JObject [(''oauth_token'', JString ''a''),
      (''oauth_token_secret'', JString ''b''), (''access_token'', JString ''c'')])"
    using json_loads_base_env(4) by (simp add: flat_obj_def)
  show ?thesis
    using flattened_payload_fills_both_files[OF zip_open_base_env j _ _ _ clear_empty_work]
      json_dumps_base_env(4)
    by (simp add: flat_obj_def)
qed

text \<open>
  Claim C6, as amended. The files of each directory are added in sorted order, so the
  encoder's result does not depend on the order in which the operating system lists the
  files of a directory: in one environment (which gives each file its modification time
  and mode, and has the zip writer), two well-formed file systems that are the same but
  for the order of files give the same result, for every directory argument.
\<close>

theorem encoder_output_independent_of_file_listing_order:
  assumes "same_but_file_order fs fs'" and "well_formed fs" and "well_formed fs'"
  shows "encode_token_store_dir_as_zip_b64 E fs directory
     = encode_token_store_dir_as_zip_b64 E fs' directory"
proof -
  from assms have s: "same_wf fs fs'" by (simp add: same_wf_def)
  have "add_walk E fs directory (os_walk E fs directory)
      = add_walk E fs' directory (os_walk E fs' directory)"
    by (rule add_walk_agree[OF archive_write_agree[OF s] os_walk_agree[OF s]])
  then show ?thesis by (simp add: encode_token_store_dir_as_zip_b64_def)
qed

theorem encoder_output_independent_of_file_listing_order_witness:
  "same_but_file_order listed_21 listed_12 \<and> well_formed listed_21 \<and> well_formed listed_12
   \<and> encode_token_store_dir_as_zip_b64 base_env listed_21 ''store''
     = encode_token_store_dir_as_zip_b64 base_env listed_12 ''store''"
  using encoder_output_independent_of_file_listing_order[OF same_listed well_formed_listed]
    same_listed well_formed_listed by simp

text \<open>
  Claim C6 as stated fails: the subdirectories are walked in the order of the listing,
  unsorted, so two directories with the same contents whose subdirectories \<open>a\<close> and
  \<open>b\<close> are listed in different orders give different archives.
\<close>

theorem subdirectory_order_changes_archive_counterexample:
  "same_contents subdirs_ab subdirs_ba \<and> well_formed subdirs_ab \<and> well_formed subdirs_ba
   \<and> encode_token_store_dir_as_zip_b64 base_env subdirs_ab ''store''
     \<noteq> encode_token_store_dir_as_zip_b64 base_env subdirs_ba ''store''"
  using same_contents_subdirs well_formed_subdirs
  by (simp add: encode_token_store_dir_as_zip_b64_def members_ab members_ba archive_bytes_not_empty
      b64encode_base_env archive_bytes_def zip_local_sample le_bytes_2)

text \<open>
  Claim C7. When the path is not a regular file, or the file cannot be read, or its text
  does not parse as JSON, or it parses to something that is not an object,
  \<open>hydrate_token_store_from_legacy_file\<close> returns normally and leaves the file system
  as it was.
\<close>

theorem hydrate_noop_on_unusable_legacy_file:
  assumes "\<not> isfile E fs path
     \<or> read_file E fs path = None
     \<or> (\<exists>text. read_file E fs path = Some text \<and> json_loads E text = None)
     \<or> (\<exists>text v. read_file E fs path = Some text \<and> json_loads E text = Some v
           \<and> (\<forall>payload. v \<noteq> JObject payload))"
  shows "hydrate_token_store_from_legacy_file E path directory fs = (fs, Inr ())"
  using assms
  by (auto simp: hydrate_token_store_from_legacy_file_def load_json_file_def
      split: option.splits json.splits)

theorem hydrate_noop_on_unusable_legacy_file_witness:
  "hydrate_token_store_from_legacy_file base_env ''missing.json'' ''store'' sample_fs = (sample_fs, Inr ())
   \<and> hydrate_token_store_from_legacy_file base_env ''secret.json'' ''store'' sample_fs = (sample_fs, Inr ())
   \<and> hydrate_token_store_from_legacy_file base_env ''broken.json'' ''store'' sample_fs = (sample_fs, Inr ())
   \<and> hydrate_token_store_from_legacy_file base_env ''list.json'' ''store'' sample_fs = (sample_fs, Inr ())"
proof -
  have 1: "\<not> isfile base_env sample_fs ''missing.json''"
    by (simp add: isfile_def resolve_base_env sample_fs_def)
  have 2: "read_file base_env sample_fs ''secret.json'' = None"
    by (simp add: read_file_def resolve_base_env sample_fs_def)
  have 3: "\<exists>text. read_file base_env sample_fs ''broken.json'' = Some text \<and> json_loads base_env text = None"
    by (simp add: read_file_def resolve_base_env sample_fs_def json_loads_base_env)
  have 4: "\<exists>text v. read_file base_env sample_fs ''list.json'' = Some text \<and> json_loads base_env text = Some v
      \<and> (\<forall>payload. v \<noteq> JObject payload)"
    by (simp add: read_file_def resolve_base_env sample_fs_def json_loads_base_env)
  from 1 2 3 4 show ?thesis
    using hydrate_noop_on_unusable_legacy_file[of base_env sample_fs "''missing.json''" "''store''"]
      hydrate_noop_on_unusable_legacy_file[of base_env sample_fs "''secret.json''" "''store''"]
      hydrate_noop_on_unusable_legacy_file[of base_env sample_fs "''broken.json''" "''store''"]
      hydrate_noop_on_unusable_legacy_file[of base_env sample_fs "''list.json''" "''store''"]
    by blast
qed

text \<open>
  Claim C8, as amended. The target is given by a path in normal form, in a file system
  that has the working directory. When every ancestor of the target is a directory or
  does not exist, \<open>clear_and_prepare_dir\<close> does not raise; the target is then an empty
  directory, whatever was there before (a regular file, a directory with its contents, or
  nothing), the missing ancestors are directories, and nothing else has changed; the
  outcome of \<open>write_token_store_bytes\<close> is the outcome it has on that file system, so
  nothing of the prior contents is merged; for bytes that are neither a zip archive nor
  JSON it returns the target path although the store is not ready; and whenever it
  returns, it returns the target path. When an ancestor of the target is a regular file,
  the call raises \<open>OSError\<close> and changes nothing.
\<close>

theorem write_clears_target_first_and_returns_it:
  assumes "working_directory E fs" and "plain_path t" and "resolve E t = Some T"
  shows "((\<forall>q. strict_prefix q T \<longrightarrow> stat fs q = None \<or> stat fs q = Some KDir) \<longrightarrow>
       (\<exists>fs0. clear_and_prepare_dir E t fs = (fs0, Inr ())
          \<and> lookup fs0 T = Some (Dir [])
          \<and> (\<forall>q. \<not> prefix T q \<longrightarrow> stat fs0 q = (if prefix q T then Some KDir else stat fs q))
          \<and> write_token_store_bytes E b t fs = write_token_store_bytes E b t fs0
          \<and> (zip_open E b = Inl BadZipFile \<and> json_loads E b = None
               \<longrightarrow> write_token_store_bytes E b t fs = (fs0, Inr t) \<and> \<not> token_store_ready E fs0 t)
          \<and> (\<forall>fs' v. write_token_store_bytes E b t fs = (fs', Inr v) \<longrightarrow> v = t)))
     \<and> ((\<exists>q r d. strict_prefix q T \<and> stat fs q = Some (KFile r d)) \<longrightarrow>
          write_token_store_bytes E b t fs = (fs, Inl OSError))"
proof (intro conjI impI)
  assume anc: "\<forall>q. strict_prefix q T \<longrightarrow> stat fs q = None \<or> stat fs q = Some KDir"
  from plain_path_place[OF assms(2,3)] have nT: "T \<noteq> []" .
  from clear_plain_target[OF assms(3) nT, of fs] anc obtain fs0 where
    c: "clear_and_prepare_dir E t fs = (fs0, Inr ())" and e: "lookup fs0 T = Some (Dir [])"
    and f: "\<forall>q. \<not> prefix T q \<longrightarrow> stat fs0 q = (if prefix q T then Some KDir else stat fs q)"
    by blast
  have w: "write_token_store_bytes E b t fs = write_token_store_bytes E b t fs0"
    using c by (rule write_after_clear)
  have n: "write_token_store_bytes E b t fs = (fs0, Inr t) \<and> \<not> token_store_ready E fs0 t"
    if "zip_open E b = Inl BadZipFile \<and> json_loads E b = None"
    using that c store_state_not_ready[OF e assms(3)]
    by (simp add: write_token_store_bytes_def try_extract_def legacy_fallback_def)
  have r: "\<forall>fs' v. write_token_store_bytes E b t fs = (fs', Inr v) \<longrightarrow> v = t"
    by (auto dest: write_returns_target)
  from c e f w n r show "\<exists>fs0. clear_and_prepare_dir E t fs = (fs0, Inr ())
          \<and> lookup fs0 T = Some (Dir [])
          \<and> (\<forall>q. \<not> prefix T q \<longrightarrow> stat fs0 q = (if prefix q T then Some KDir else stat fs q))
          \<and> write_token_store_bytes E b t fs = write_token_store_bytes E b t fs0
          \<and> (zip_open E b = Inl BadZipFile \<and> json_loads E b = None
               \<longrightarrow> write_token_store_bytes E b t fs = (fs0, Inr t) \<and> \<not> token_store_ready E fs0 t)
          \<and> (\<forall>fs' v. write_token_store_bytes E b t fs = (fs', Inr v) \<longrightarrow> v = t)"
    by blast
next
  assume "\<exists>q r d. strict_prefix q T \<and> stat fs q = Some (KFile r d)"
  then obtain q r d where "strict_prefix q T" "stat fs q = Some (KFile r d)" by blast
  from clear_below_file[OF assms(3) this]
  show "write_token_store_bytes E b t fs = (fs, Inl OSError)"
    by (simp add: write_token_store_bytes_def)
qed

theorem write_clears_target_first_and_returns_it_witness:
  "working_directory base_env used_store \<and> plain_path ''store'' \<and> plain_path ''plain''
   \<and> stat used_store [''work'', ''store'', ''stale.txt''] = Some (KFile True ''old'')
   \<and> write_token_store_bytes base_env ''{not json'' ''store'' used_store
       = (Dir [(''work'', Dir [(''plain'', File True ''x''), (''store'', Dir [])])], Inr ''store'')
   \<and> stat used_store [''work'', ''plain''] = Some (KFile True ''x'')
   \<and> write_token_store_bytes base_env ''{not json'' ''plain'' used_store
       = (Dir [(''work'', Dir [(''store'', Dir [(''stale.txt'', File True ''old'')]), (''plain'', Dir [])])],
          Inr ''plain'')
   \<and> plain_path ''plain/store''
   \<and> write_token_store_bytes base_env ''{not json'' ''plain/store'' used_store = (used_store, Inl OSError)"
proof -
  have wd: "working_directory base_env used_store"
    by (simp add: working_directory_def base_env_def valid_name_def stat_def used_store_def)
  have pp: "plain_path ''store''" "plain_path ''plain''" "plain_path ''plain/store''"
    by (simp_all add: plain_path_def valid_name_def)
  have rp: "resolve base_env ''plain'' = Some [''work'', ''plain'']"
    by (simp add: path_eval)
  have st: "stat used_store [''work'', ''store'', ''stale.txt''] = Some (KFile True ''old'')"
    "stat used_store [''work'', ''plain''] = Some (KFile True ''x'')"
    by (simp_all add: stat_def used_store_def)
  have a1: "\<forall>q. strict_prefix q [''work'', ''store''] \<longrightarrow>
      stat used_store q = None \<or> stat used_store q = Some KDir"
    by (auto simp: strict_prefix_def prefix_Cons stat_def used_store_def)
  have a2: "\<forall>q. strict_prefix q [''work'', ''plain''] \<longrightarrow>
      stat used_store q = None \<or> stat used_store q = Some KDir"
    by (auto simp: strict_prefix_def prefix_Cons stat_def used_store_def)
  have a3: "\<exists>q r d. strict_prefix q [''work'', ''plain'', ''store''] \<and> stat used_store q = Some (KFile r d)"
  proof (intro exI conjI)
    show "strict_prefix [''work'', ''plain''] [''work'', ''plain'', ''store'']"
      by (simp add: strict_prefix_def)
    show "stat used_store [''work'', ''plain''] = Some (KFile True ''x'')" by (rule st(2))
  qed
  note dir_target = write_clears_target_first_and_returns_it
    [OF wd pp(1) resolve_store, of "''{not json''"]
  note file_target = write_clears_target_first_and_returns_it
    [OF wd pp(2) rp, of "''{not json''"]
  note below_file = write_clears_target_first_and_returns_it
    [OF wd pp(3) resolve_plain_store, of "''{not json''"]
  from dir_target a1 clear_used_store zip_open_base_env json_loads_base_env(7)
  have 1: "write_token_store_bytes base_env ''{not json'' ''store'' used_store
      = (Dir [(''work'', Dir [(''plain'', File True ''x''), (''store'', Dir [])])], Inr ''store'')"
    by auto
  from file_target a2 clear_plain_store zip_open_base_env json_loads_base_env(7)
  have 2: "write_token_store_bytes base_env ''{not json'' ''plain'' used_store
      = (Dir [(''work'', Dir [(''store'', Dir [(''stale.txt'', File True ''old'')]), (''plain'', Dir [])])],
          Inr ''plain'')"
    by auto
  from below_file a3
  have 3: "write_token_store_bytes base_env ''{not json'' ''plain/store'' used_store = (used_store, Inl OSError)"
    by blast
  from wd pp st 1 2 3 show ?thesis by simp
qed

text \<open>
  Claim C8 as stated fails: the target \<open>plain/store\<close> lies below the regular file
  \<open>plain\<close>. Nothing is cleared and the target is not recreated as an empty directory:
  the call raises \<open>OSError\<close> and there is still nothing at the target.
\<close>

theorem target_below_file_is_not_recreated_counterexample:
  "stat used_store [''work'', ''plain''] = Some (KFile True ''x'')
   \<and> resolve base_env ''plain/store'' = Some [''work'', ''plain'', ''store'']
   \<and> clear_and_prepare_dir base_env ''plain/store'' used_store = (used_store, Inl OSError)
   \<and> write_token_store_bytes base_env ''{not json'' ''plain/store'' used_store = (used_store, Inl OSError)
   \<and> stat used_store [''work'', ''plain'', ''store''] = None"
  using clear_under_file resolve_plain_store
  by (simp add: write_token_store_bytes_def stat_def used_store_def)
text \<open>
  Claim C9. In the legacy fallback (bytes that are not a zip archive and parse as a JSON
  object, target cleared and created): if the payload has an \<open>oauth1_token\<close> object
  and the top-level keys \<open>oauth_token\<close> and \<open>oauth_token_secret\<close>, the OAuth1 file ends
  up holding the whole payload; if it has an \<open>oauth2_token\<close> object and a top-level
  \<open>access_token\<close>, the OAuth2 file ends up holding the whole payload.
\<close>

theorem flattened_rules_overwrite_sub_object_rules:
  assumes "zip_open E b = Inl BadZipFile"
    and "json_loads E b = Some (JObject payload)"
    and "clear_and_prepare_dir E t fs = (fs0, Inr u)"
  shows "\<exists>fs'. write_token_store_bytes E b t fs = (fs', Inr t)
     \<and> ((\<exists>sub. map_of payload ''oauth1_token'' = Some (JObject sub))
          \<and> map_of payload ''oauth_token'' \<noteq> None \<and> map_of payload ''oauth_token_secret'' \<noteq> None
        \<longrightarrow> read_file E fs' (path_join t OAUTH1_TOKEN_FILENAME) = Some (json_dumps E (JObject payload)))
     \<and> ((\<exists>sub. map_of payload ''oauth2_token'' = Some (JObject sub))
          \<and> map_of payload ''access_token'' \<noteq> None
        \<longrightarrow> read_file E fs' (path_join t OAUTH2_TOKEN_FILENAME) = Some (json_dumps E (JObject payload)))"
proof -
  from legacy_written[OF assms] obtain fs' T where
    w: "write_token_store_bytes E b t fs = (fs', Inr t)" and T: "resolve E t = Some T"
    and s: "store_state fs' T
          (keys_text E [''oauth_token'', ''oauth_token_secret''] payload
             (dict_text E (map_of payload ''oauth1_token'') None))
          (keys_text E [''access_token''] payload
             (dict_text E (map_of payload ''oauth2_token'') None))" by blast
  from store_state_read(1,2)[OF s T] w show ?thesis
    by (auto simp: keys_text_def)
qed

theorem flattened_rules_overwrite_sub_object_rules_witness:
  "\<exists>fs'. write_token_store_bytes base_env mixed_text ''store'' empty_work = (fs', Inr ''store'')
     \<and> read_file base_env fs' (path_join ''store'' OAUTH1_TOKEN_FILENAME) = Some mixed_text
     \<and> read_file base_env fs' (path_join ''store'' OAUTH2_TOKEN_FILENAME) = Some mixed_text
     \<and> json_dumps base_env oauth1_obj \<noteq> mixed_text
     \<and> json_dumps base_env oauth2_obj \<noteq> mixed_text"
proof -
  have j: "json_loads base_env mixed_text = Some (JObject [(''oauth1_token'', oauth1_obj),
      (''oauth2_token'', oauth2_obj), (''oauth_token'', JString ''a''),
      (''oauth_token_secret'', JString ''b''), (''access_token'', JString ''c'')])"
    using json_loads_base_env(5) by (simp add: mixed_obj_def)
  have n: "json_dumps base_env oauth1_obj \<noteq> mixed_text" "json_dumps base_env oauth2_obj \<noteq> mixed_text"
    by (simp_all add: json_dumps_base_env text_defs)
  show ?thesis
    using flattened_rules_overwrite_sub_object_rules[OF zip_open_base_env j clear_empty_work]
      json_dumps_base_env(5) n
    by (simp add: mixed_obj_def oauth1_obj_def oauth2_obj_def)
qed

text \<open>
  Claim C10, as amended. \<open>hydrate_token_store_from_legacy_file\<close> changes nothing in the
  file system except at the two paths \<open>oauth1_token.json\<close> and \<open>oauth2_token.json\<close> of
  the given directory, whether it returns or raises; the legacy file keeps its content
  unless its path is one of these two paths.
\<close>

theorem hydrate_changes_only_the_two_token_files:
  assumes "hydrate_token_store_from_legacy_file E path directory fs = (fs', r)"
  shows "(\<forall>q. resolve E (path_join directory OAUTH1_TOKEN_FILENAME) \<noteq> Some q
            \<and> resolve E (path_join directory OAUTH2_TOKEN_FILENAME) \<noteq> Some q
          \<longrightarrow> stat fs' q = stat fs q)
     \<and> (resolve E (path_join directory OAUTH1_TOKEN_FILENAME) \<noteq> resolve E path
          \<and> resolve E (path_join directory OAUTH2_TOKEN_FILENAME) \<noteq> resolve E path
        \<longrightarrow> read_file E fs' path = read_file E fs path)
     \<and> (\<forall>D. resolve E directory = Some D
          \<longrightarrow> resolve E (path_join directory OAUTH1_TOKEN_FILENAME) = Some (D @ [OAUTH1_TOKEN_FILENAME])
            \<and> resolve E (path_join directory OAUTH2_TOKEN_FILENAME) = Some (D @ [OAUTH2_TOKEN_FILENAME]))"
proof (intro conjI allI impI)
  fix q
  assume "resolve E (path_join directory OAUTH1_TOKEN_FILENAME) \<noteq> Some q
     \<and> resolve E (path_join directory OAUTH2_TOKEN_FILENAME) \<noteq> Some q"
  with hydrate_frame[OF assms] show "stat fs' q = stat fs q" by blast
next
  assume a: "resolve E (path_join directory OAUTH1_TOKEN_FILENAME) \<noteq> resolve E path
     \<and> resolve E (path_join directory OAUTH2_TOKEN_FILENAME) \<noteq> resolve E path"
  show "read_file E fs' path = read_file E fs path"
  proof (cases "resolve E path")
    case None
    then show ?thesis by (simp add: read_file_def)
  next
    case (Some q)
    with a hydrate_frame[OF assms, of q] have "stat fs' q = stat fs q" by simp
    with Some show ?thesis by (simp add: read_file_stat)
  qed
next
  fix D assume "resolve E directory = Some D"
  then show "resolve E (path_join directory OAUTH1_TOKEN_FILENAME) = Some (D @ [OAUTH1_TOKEN_FILENAME])"
    by (simp add: resolve_path_join)
next
  fix D assume "resolve E directory = Some D"
  then show "resolve E (path_join directory OAUTH2_TOKEN_FILENAME) = Some (D @ [OAUTH2_TOKEN_FILENAME])"
    by (simp add: resolve_path_join)
qed

theorem hydrate_changes_only_the_two_token_files_witness:
  "stat hydrated_fs [''work'', ''garth-session.json''] = stat legacy_fs [''work'', ''garth-session.json'']
   \<and> read_file base_env hydrated_fs ''garth-session.json'' = read_file base_env legacy_fs ''garth-session.json''
   \<and> resolve base_env (path_join ''store'' OAUTH1_TOKEN_FILENAME) = Some ([''work'', ''store''] @ [OAUTH1_TOKEN_FILENAME])
   \<and> resolve base_env (path_join ''store'' OAUTH2_TOKEN_FILENAME) = Some ([''work'', ''store''] @ [OAUTH2_TOKEN_FILENAME])"
  using hydrate_changes_only_the_two_token_files[OF hydrate_legacy_fs]
  by (simp add: token_paths_store resolve_base_env resolve_session resolve_store
      OAUTH1_TOKEN_FILENAME_def OAUTH2_TOKEN_FILENAME_def)

text \<open>
  Claim C10 as stated fails: a legacy file that is itself \<open>oauth1_token.json\<close> of the
  directory is overwritten with its own \<open>oauth1_token\<close> sub-object.
\<close>

theorem hydrate_overwrites_aliased_legacy_file_counterexample:
  "read_file base_env aliased_fs ''store/oauth1_token.json'' = Some legacy_text
   \<and> read_file base_env
        (fst (hydrate_token_store_from_legacy_file base_env ''store/oauth1_token.json'' ''store'' aliased_fs))
        ''store/oauth1_token.json'' = Some oauth1_text
   \<and> oauth1_text \<noteq> legacy_text"
  by (simp add: hydrate_token_store_from_legacy_file_def isfile_def load_json_file_def read_file_def
      aliased_fs_def json_loads_base_env legacy_obj_def oauth1_obj_def oauth2_obj_def
      write_if_dict_def write_json_def write_file_def token_paths_store resolve_base_env
      json_dumps_base_env[unfolded oauth1_obj_def oauth2_obj_def])
    (simp add: text_defs)

end
